theory Spec2Isabelle
  imports Main
begin

section \<open>The maze generator of \<^verbatim>\<open>minigrid/envs/maze.py\<close>\<close>

text \<open>
  The class \<^verbatim>\<open>Maze_Generator\<close> owns a numpy array of booleans of shape
  \<^verbatim>\<open>(width, height)\<close> (\<^verbatim>\<open>True\<close> is a passage, \<^verbatim>\<open>False\<close> a wall) and carves it with a
  randomised version of Prim's algorithm. The array is a list of \<^verbatim>\<open>width\<close> rows of
  \<^verbatim>\<open>height\<close> booleans, coordinates are Python integers, and every exception of the
  source is a value of \<open>error\<close>.
\<close>

subsection \<open>Data\<close>

datatype error = IndexError | ValueError | OverflowError

type_synonym cell = "int \<times> int"

text \<open>
  The attributes \<^verbatim>\<open>_width\<close>, \<^verbatim>\<open>_height\<close> and \<^verbatim>\<open>grid\<close> of a \<^verbatim>\<open>Maze_Generator\<close>.
\<close>

record maze =
  width :: int
  height :: int
  grid :: "bool list list"

text \<open>
  Sequencing of steps that may raise: the first exception ends the computation.
\<close>

definition ebind :: "error + 'a \<Rightarrow> ('a \<Rightarrow> error + 'b) \<Rightarrow> error + 'b" where
  "ebind r f = (case r of Inl e \<Rightarrow> Inl e | Inr v \<Rightarrow> f v)"

subsection \<open>The numpy array\<close>

text \<open>
  Indexing one axis of length \<open>n\<close> with the integer \<open>i\<close>, as numpy does it: an index in
  \<open>[0, n)\<close> is taken as it is and an index in \<open>[-n, 0)\<close> counts from the end. Every other
  index raises: \<^verbatim>\<open>OverflowError\<close> when it lies in \<open>[2^63, 2^64)\<close>, \<^verbatim>\<open>IndexError\<close> otherwise
  (\<open>index_error\<close>). No axis of an array has \<open>2^63\<close> cells or more, so for an index that
  is in range the order of the tests makes no difference.
\<close>

definition index_error :: "int \<Rightarrow> error" where
  "index_error i = (if 2 ^ 63 \<le> i \<and> i < 2 ^ 64 then OverflowError else IndexError)"

definition np_index :: "nat \<Rightarrow> int \<Rightarrow> error + nat" where
  "np_index n i =
     (if 0 \<le> i \<and> i < int n then Inr (nat i)
      else if - int n \<le> i \<and> i < 0 then Inr (nat (i + int n))
      else Inl (index_error i))"

text \<open>The read \<^verbatim>\<open>grid[i][j]\<close> and the write \<^verbatim>\<open>grid[i][j] = v\<close>.\<close>

definition grid_get :: "bool list list \<Rightarrow> int \<Rightarrow> int \<Rightarrow> error + bool" where
  "grid_get g i j =
     ebind (np_index (length g) i) (\<lambda>a.
     ebind (np_index (length (g ! a)) j) (\<lambda>b.
     Inr (g ! a ! b)))"

definition grid_set :: "bool list list \<Rightarrow> int \<Rightarrow> int \<Rightarrow> bool \<Rightarrow> error + bool list list" where
  "grid_set g i j v =
     ebind (np_index (length g) i) (\<lambda>a.
     ebind (np_index (length (g ! a)) j) (\<lambda>b.
     Inr (g[a := (g ! a)[b := v]])))"

text \<open>
  \<^verbatim>\<open>np.zeros((width, height), dtype=bool)\<close>: numpy refuses a negative dimension with
  \<^verbatim>\<open>ValueError\<close>; a dimension of zero gives an array without cells.
\<close>

definition np_zeros :: "int \<Rightarrow> int \<Rightarrow> error + bool list list" where
  "np_zeros w h =
     (if w < 0 \<or> h < 0 then Inl ValueError
      else Inr (replicate (nat w) (replicate (nat h) False)))"

subsection \<open>Frontier and neighbours\<close>

text \<open>
  A Python set of coordinates is a list without duplicates: \<^verbatim>\<open>f.add(c)\<close> is
  \<open>List.insert c f\<close>. One line
  \<^verbatim>\<open>if guard and [not] self.grid[a][b]: f.add((a, b))\<close>
  of the source is \<open>add_if\<close>: the array is read only when the guard holds
  (\<^verbatim>\<open>and\<close> is short-circuit), and the cell is added when its value is \<open>want\<close>.
\<close>

definition add_if :: "bool list list \<Rightarrow> bool \<Rightarrow> bool \<Rightarrow> cell \<Rightarrow> cell list \<Rightarrow> error + cell list" where
  "add_if g guard want c acc =
     (if guard then
        ebind (grid_get g (fst c) (snd c)) (\<lambda>v.
        Inr (if v = want then List.insert c acc else acc))
      else Inr acc)"

definition frontier :: "maze \<Rightarrow> int \<Rightarrow> int \<Rightarrow> error + cell list" where
  "frontier m x y =
     (if x \<ge> 0 \<and> x < width m \<and> y \<ge> 0 \<and> y < height m then
        ebind (add_if (grid m) (x > 1) False (x - 2, y) []) (\<lambda>f1.
        ebind (add_if (grid m) (x + 2 < width m) False (x + 2, y) f1) (\<lambda>f2.
        ebind (add_if (grid m) (y > 1) False (x, y - 2) f2) (\<lambda>f3.
        add_if (grid m) (y + 2 < height m) False (x, y + 2) f3)))
      else Inr [])"

definition neighbours :: "maze \<Rightarrow> int \<Rightarrow> int \<Rightarrow> error + cell list" where
  "neighbours m x y =
     (if x \<ge> 0 \<and> x < width m \<and> y \<ge> 0 \<and> y < height m then
        ebind (add_if (grid m) (x > 1) True (x - 2, y) []) (\<lambda>n1.
        ebind (add_if (grid m) (x + 2 < width m) True (x + 2, y) n1) (\<lambda>n2.
        ebind (add_if (grid m) (y > 1) True (x, y - 2) n2) (\<lambda>n3.
        add_if (grid m) (y + 2 < height m) True (x, y + 2) n3)))
      else Inr [])"

subsection \<open>Connect\<close>

text \<open>
  \<^verbatim>\<open>__connect(x1, y1, x2, y2)\<close> writes the cell \<open>(x1, y1)\<close> first and the midpoint second;
  Python's \<^verbatim>\<open>//\<close> is floor division, as \<open>div\<close> on \<open>int\<close> is.
\<close>

definition connect :: "maze \<Rightarrow> int \<Rightarrow> int \<Rightarrow> int \<Rightarrow> int \<Rightarrow> error + maze" where
  "connect m x1 y1 x2 y2 =
     (let x = (x1 + x2) div 2; y = (y1 + y2) div 2 in
      ebind (grid_set (grid m) x1 y1 True) (\<lambda>g1.
      ebind (grid_set g1 x y True) (\<lambda>g2.
      Inr (m\<lparr>grid := g2\<rparr>))))"

subsection \<open>Generation\<close>

text \<open>
  The source draws from the ambient generator of the \<^verbatim>\<open>random\<close> module. The draws are a
  parameter \<open>rnd\<close> of the model: the \<open>k\<close>-th call of \<^verbatim>\<open>random.choice(tuple(s))\<close> returns the
  element at position \<open>rnd k mod len\<close>, so every element can be chosen, and an empty
  sequence raises \<^verbatim>\<open>IndexError\<close>.
\<close>

definition choice :: "(nat \<Rightarrow> nat) \<Rightarrow> nat \<Rightarrow> 'a list \<Rightarrow> error + 'a" where
  "choice rnd k xs = (if xs = [] then Inl IndexError else Inr (xs ! (rnd k mod length xs)))"

text \<open>
  The state of \<^verbatim>\<open>__generate\<close> at the head of its loop: the maze, the working set \<^verbatim>\<open>s\<close>
  (field \<open>work\<close>) and the number of draws made so far. The fields \<open>pops\<close> and \<open>connects\<close>
  are counters added for the statements about the run: the iterations of the loop, and
  the calls of \<^verbatim>\<open>__connect\<close>.
\<close>

record gstate =
  mz :: maze
  work :: "cell list"
  draws :: nat
  pops :: nat
  connects :: nat

text \<open>The statements before the loop: carve the origin, start from its frontier.\<close>

definition generate_init :: "maze \<Rightarrow> error + gstate" where
  "generate_init m =
     ebind (grid_set (grid m) 0 0 True) (\<lambda>g.
     ebind (frontier (m\<lparr>grid := g\<rparr>) 0 0) (\<lambda>fs.
     Inr \<lparr>mz = m\<lparr>grid := g\<rparr>, work = fold List.insert fs [],
          draws = 0, pops = 0, connects = 0\<rparr>))"

text \<open>
  One iteration of \<^verbatim>\<open>while s:\<close>. The cell removed from \<^verbatim>\<open>s\<close> is the one just chosen
  from it, so \<^verbatim>\<open>s.remove\<close> never raises; \<^verbatim>\<open>for f in fs: s.add(f)\<close> is the fold of
  \<open>List.insert\<close>.
\<close>

definition loop_body :: "(nat \<Rightarrow> nat) \<Rightarrow> gstate \<Rightarrow> error + gstate" where
  "loop_body rnd st =
     ebind (choice rnd (draws st) (work st)) (\<lambda>(x, y).
     ebind (neighbours (mz st) x y) (\<lambda>ns.
     ebind (if ns \<noteq> [] then
              ebind (choice rnd (Suc (draws st)) ns) (\<lambda>(nx, ny).
              ebind (connect (mz st) x y nx ny) (\<lambda>m'.
              Inr (m', Suc (Suc (draws st)), Suc (connects st))))
            else Inr (mz st, Suc (draws st), connects st)) (\<lambda>(m1, d, c).
     ebind (frontier m1 x y) (\<lambda>fs.
     Inr \<lparr>mz = m1, work = fold List.insert fs (removeAll (x, y) (work st)),
          draws = d, pops = Suc (pops st), connects = c\<rparr>))))"

partial_function (option) generate_loop :: "(nat \<Rightarrow> nat) \<Rightarrow> gstate \<Rightarrow> (error + gstate) option" where
  "generate_loop rnd st =
     (if work st = [] then Some (Inr st)
      else (case loop_body rnd st of
              Inl e \<Rightarrow> Some (Inl e)
            | Inr st' \<Rightarrow> generate_loop rnd st'))"

declare generate_loop.simps [code]

definition generate :: "(nat \<Rightarrow> nat) \<Rightarrow> maze \<Rightarrow> (error + gstate) option" where
  "generate rnd m =
     (case generate_init m of
        Inl e \<Rightarrow> Some (Inl e)
      | Inr st \<Rightarrow> generate_loop rnd st)"

text \<open>
  The constructor \<^verbatim>\<open>Maze_Generator(width, height)\<close>. \<open>None\<close> stands for a loop that never
  ends, \<open>Some (Inl e)\<close> for an exception, \<open>Some (Inr st)\<close> for the constructed object
  \<open>mz st\<close> together with the counters of its generation.
\<close>

definition Maze_Generator :: "(nat \<Rightarrow> nat) \<Rightarrow> int \<Rightarrow> int \<Rightarrow> (error + gstate) option" where
  "Maze_Generator rnd w h =
     (case np_zeros w h of
        Inl e \<Rightarrow> Some (Inl e)
      | Inr g \<Rightarrow> generate rnd \<lparr>width = w, height = h, grid = g\<rparr>)"

section \<open>Specification vocabulary\<close>

subsection \<open>The lattice\<close>

text \<open>
  The coordinates of the lattice, the shape that \<^verbatim>\<open>np.zeros((width, height))\<close> gives the
  array, and the state of a cell: \<open>passage m c\<close> reads the array at a coordinate of the
  lattice, and no cell outside the lattice is a passage. \<open>carve\<close> is the array after
  \<^verbatim>\<open>grid[x][y] = True\<close> at a coordinate of the lattice.
\<close>

definition in_bounds :: "maze \<Rightarrow> cell \<Rightarrow> bool" where
  "in_bounds m c = (0 \<le> fst c \<and> fst c < width m \<and> 0 \<le> snd c \<and> snd c < height m)"

definition well_shaped :: "maze \<Rightarrow> bool" where
  "well_shaped m =
     (length (grid m) = nat (width m) \<and> list_all (\<lambda>row. length row = nat (height m)) (grid m))"

definition passage :: "maze \<Rightarrow> cell \<Rightarrow> bool" where
  "passage m c = (in_bounds m c \<and> grid m ! nat (fst c) ! nat (snd c))"

definition wall :: "maze \<Rightarrow> cell \<Rightarrow> bool" where
  "wall m c = (in_bounds m c \<and> \<not> passage m c)"

definition carve :: "maze \<Rightarrow> cell \<Rightarrow> maze" where
  "carve m c = m\<lparr>grid := (grid m)[nat (fst c) := (grid m ! nat (fst c))[nat (snd c) := True]]\<rparr>"

subsection \<open>Adjacency\<close>

text \<open>
  Distance exactly 2 along one axis, the cell between two such cells, distance 1 along
  one axis, and the cells with two even coordinates.
\<close>

definition dist2 :: "cell \<Rightarrow> cell \<Rightarrow> bool" where
  "dist2 c d =
     ((snd d = snd c \<and> (fst d = fst c - 2 \<or> fst d = fst c + 2)) \<or>
      (fst d = fst c \<and> (snd d = snd c - 2 \<or> snd d = snd c + 2)))"

definition mid :: "cell \<Rightarrow> cell \<Rightarrow> cell" where
  "mid c d = ((fst c + fst d) div 2, (snd c + snd d) div 2)"

definition adj4 :: "cell \<Rightarrow> cell \<Rightarrow> bool" where
  "adj4 c d =
     ((snd d = snd c \<and> (fst d = fst c - 1 \<or> fst d = fst c + 1)) \<or>
      (fst d = fst c \<and> (snd d = snd c - 1 \<or> snd d = snd c + 1)))"

definition node :: "cell \<Rightarrow> bool" where
  "node c = (even (fst c) \<and> even (snd c))"

text \<open>
  Reachability from the origin: by steps between 4-adjacent passage cells, and by steps of
  2 along one axis between passage cells whose intermediate cell is a passage.
\<close>

inductive reach4 :: "maze \<Rightarrow> cell \<Rightarrow> bool" for m where
  reach4_origin: "passage m (0, 0) \<Longrightarrow> reach4 m (0, 0)"
| reach4_step: "reach4 m c \<Longrightarrow> adj4 c d \<Longrightarrow> passage m d \<Longrightarrow> reach4 m d"

inductive reach2 :: "maze \<Rightarrow> cell \<Rightarrow> bool" for m where
  reach2_origin: "passage m (0, 0) \<Longrightarrow> reach2 m (0, 0)"
| reach2_step: "reach2 m c \<Longrightarrow> dist2 c d \<Longrightarrow> passage m (mid c d) \<Longrightarrow> passage m d
                \<Longrightarrow> reach2 m d"

subsection \<open>What the operations compute on a well-shaped lattice\<close>

text \<open>
  \<open>pick P x y\<close> is the set that \<^verbatim>\<open>__frontier\<close> (with \<open>P = wall m\<close>) and \<^verbatim>\<open>__neighbours\<close>
  (with \<open>P = passage m\<close>) build, in the order of the four tests of the source. In a state
  at the head of the loop, \<open>popped\<close> is the cell that the first draw chooses, \<open>chosen\<close> the
  neighbour that the second draw chooses, \<open>carved\<close> the maze after \<^verbatim>\<open>__connect\<close> and
  \<open>next_state\<close> the state after the iteration; \<open>blank\<close> is the maze before generation and
  \<open>first_state\<close> the state at the first head of the loop. That the source computes these
  is proved below (\<open>frontier_pick\<close>, \<open>neighbours_pick\<close>, \<open>connect_carve\<close>,
  \<open>loop_body_inv\<close>, \<open>generate_init_blank\<close>).
\<close>

definition ins_if :: "(cell \<Rightarrow> bool) \<Rightarrow> cell \<Rightarrow> cell list \<Rightarrow> cell list" where
  "ins_if P c acc = (if P c then List.insert c acc else acc)"

definition pick :: "(cell \<Rightarrow> bool) \<Rightarrow> int \<Rightarrow> int \<Rightarrow> cell list" where
  "pick P x y =
     ins_if P (x, y + 2) (ins_if P (x, y - 2) (ins_if P (x + 2, y) (ins_if P (x - 2, y) [])))"

definition popped :: "(nat \<Rightarrow> nat) \<Rightarrow> gstate \<Rightarrow> cell" where
  "popped rnd st = work st ! (rnd (draws st) mod length (work st))"

definition chosen :: "(nat \<Rightarrow> nat) \<Rightarrow> gstate \<Rightarrow> cell" where
  "chosen rnd st =
     (let ns = pick (passage (mz st)) (fst (popped rnd st)) (snd (popped rnd st))
      in ns ! (rnd (Suc (draws st)) mod length ns))"

definition carved :: "(nat \<Rightarrow> nat) \<Rightarrow> gstate \<Rightarrow> maze" where
  "carved rnd st = carve (carve (mz st) (popped rnd st)) (mid (popped rnd st) (chosen rnd st))"

definition next_state :: "(nat \<Rightarrow> nat) \<Rightarrow> gstate \<Rightarrow> gstate" where
  "next_state rnd st =
     \<lparr>mz = carved rnd st,
      work = fold List.insert
        (pick (wall (carved rnd st)) (fst (popped rnd st)) (snd (popped rnd st)))
        (removeAll (popped rnd st) (work st)),
      draws = Suc (Suc (draws st)), pops = Suc (pops st), connects = Suc (connects st)\<rparr>"

definition blank :: "int \<Rightarrow> int \<Rightarrow> maze" where
  "blank w h = \<lparr>width = w, height = h, grid = replicate (nat w) (replicate (nat h) False)\<rparr>"

definition first_state :: "int \<Rightarrow> int \<Rightarrow> gstate" where
  "first_state w h =
     \<lparr>mz = carve (blank w h) (0, 0),
      work = fold List.insert (pick (wall (carve (blank w h) (0, 0))) 0 0) [],
      draws = 0, pops = 0, connects = 0\<rparr>"

subsection \<open>The run and its invariant\<close>

text \<open>
  \<open>loop_head rnd w h st\<close>: the run of \<^verbatim>\<open>Maze_Generator(w, h)\<close> under the draws \<open>rnd\<close> reaches
  the head of the loop of \<^verbatim>\<open>__generate\<close> in the state \<open>st\<close>.
\<close>

inductive loop_head :: "(nat \<Rightarrow> nat) \<Rightarrow> int \<Rightarrow> int \<Rightarrow> gstate \<Rightarrow> bool" for rnd w h where
  loop_start: "np_zeros w h = Inr g \<Longrightarrow> generate_init \<lparr>width = w, height = h, grid = g\<rparr> = Inr st
     \<Longrightarrow> loop_head rnd w h st"
| loop_iter: "loop_head rnd w h st \<Longrightarrow> work st \<noteq> [] \<Longrightarrow> loop_body rnd st = Inr st'
     \<Longrightarrow> loop_head rnd w h st'"

text \<open>
  The invariant of the loop. A cell of the working set has even coordinates, is a wall
  and has a passage at distance 2 (\<open>work_ok\<close>); a passage is a node or a midpoint between
  two passage nodes (\<open>link_ok\<close>); every passage is reachable from the origin; and the
  counters count the passages.
\<close>

definition link_ok :: "maze \<Rightarrow> cell \<Rightarrow> bool" where
  "link_ok m c =
     ((odd (fst c) \<and> even (snd c) \<and>
         passage m (fst c - 1, snd c) \<and> passage m (fst c + 1, snd c)) \<or>
      (even (fst c) \<and> odd (snd c) \<and>
         passage m (fst c, snd c - 1) \<and> passage m (fst c, snd c + 1)))"

definition work_ok :: "gstate \<Rightarrow> bool" where
  "work_ok st =
     (\<forall>c\<in>set (work st). node c \<and> wall (mz st) c \<and> (\<exists>n. dist2 c n \<and> passage (mz st) n))"

definition loop_inv :: "gstate \<Rightarrow> bool" where
  "loop_inv st =
     (well_shaped (mz st) \<and> passage (mz st) (0, 0) \<and> work_ok st \<and>
      (\<forall>c. passage (mz st) c \<longrightarrow> node c \<or> link_ok (mz st) c) \<and>
      (\<forall>c. passage (mz st) c \<longrightarrow> reach4 (mz st) c) \<and>
      (\<forall>c. passage (mz st) c \<and> node c \<longrightarrow> reach2 (mz st) c) \<and>
      card {c. passage (mz st) c \<and> node c} = Suc (connects st) \<and>
      card {c. passage (mz st) c \<and> \<not> node c} = connects st \<and>
      pops st = connects st \<and> draws st = 2 * pops st)"

text \<open>
  The working set misses no candidate: a wall at distance 2 from a passage with even
  coordinates is in it.
\<close>

definition frontier_complete :: "gstate \<Rightarrow> bool" where
  "frontier_complete st =
     (\<forall>n c. passage (mz st) n \<and> node n \<and> dist2 n c \<and> wall (mz st) c \<longrightarrow> c \<in> set (work st))"

subsection \<open>Concrete inputs\<close>

text \<open>Two sequences of draws for concrete runs: always the first element, always the second.\<close>

definition zero_draws :: "nat \<Rightarrow> nat" where
  "zero_draws k = 0"

definition one_draws :: "nat \<Rightarrow> nat" where
  "one_draws k = 1"

text \<open>A small lattice for concrete instances: two carved corners in a 3 by 3 grid.\<close>

definition corner_maze :: maze where
  "corner_maze = \<lparr>width = 3, height = 3,
     grid = [[True, False, False], [False, False, False], [True, False, False]]\<rparr>"

subsection \<open>The accessor\<close>

text \<open>
  The source has no accessor method: the host reads the public attribute directly,
  \<^verbatim>\<open>maze.grid[i][j]\<close> (\<^verbatim>\<open>MazeEnv._gen_grid\<close>). \<open>isPassage\<close> is that read: it returns what
  the read returns or raises, together with the maze after the read.
\<close>

definition isPassage :: "maze \<Rightarrow> int \<Rightarrow> int \<Rightarrow> (error + bool) \<times> maze" where
  "isPassage m x y = (grid_get (grid m) x y, m)"

text \<open>The object that \<^verbatim>\<open>Maze_Generator(1, 1)\<close> constructs.\<close>

definition single_cell :: gstate where
  "single_cell = \<lparr>mz = \<lparr>width = 1, height = 1, grid = [[True]]\<rparr>, work = [],
     draws = 0, pops = 0, connects = 0\<rparr>"

subsection \<open>The graph of the passages\<close>

text \<open>
  The graph of the distance-2 relation on a maze: its nodes are the passage cells with two
  even coordinates, an edge joins two nodes at distance 2 whose midpoint is a passage (each
  edge is listed once, from the smaller coordinate), and \<open>links m c\<close> are the nodes
  joined to \<open>c\<close>. \<open>ends_of\<close> gives the two ends of the edge through a midpoint.
\<close>

definition nodes :: "maze \<Rightarrow> cell set" where
  "nodes m = {c. passage m c \<and> node c}"

definition edges :: "maze \<Rightarrow> (cell \<times> cell) set" where
  "edges m =
     {(a, b). passage m a \<and> node a \<and> passage m b \<and>
        (b = (fst a + 2, snd a) \<or> b = (fst a, snd a + 2)) \<and> passage m (mid a b)}"

definition links :: "maze \<Rightarrow> cell \<Rightarrow> cell set" where
  "links m c = {n. dist2 c n \<and> passage m n \<and> passage m (mid c n)}"

definition ends_of :: "cell \<Rightarrow> cell \<times> cell" where
  "ends_of c =
     (if odd (fst c) then ((fst c - 1, snd c), (fst c + 1, snd c))
      else ((fst c, snd c - 1), (fst c, snd c + 1)))"

subsection \<open>More concrete inputs\<close>

text \<open>
  A third sequence of draws, equal to \<open>zero_draws\<close> on the first six draws only; what
  \<^verbatim>\<open>Maze_Generator(3, 3)\<close> constructs under \<open>zero_draws\<close>; the grid of a result.
\<close>

definition late_draws :: "nat \<Rightarrow> nat" where
  "late_draws k = (if k < 6 then 0 else 1)"

definition three_by_three :: gstate where
  "three_by_three = \<lparr>mz = \<lparr>width = 3, height = 3,
       grid = [[True, True, True], [True, False, False], [True, True, True]]\<rparr>,
     work = [], draws = 6, pops = 3, connects = 3\<rparr>"

definition grid_of :: "(error + gstate) option \<Rightarrow> bool list list option" where
  "grid_of r = (case r of Some (Inr st) \<Rightarrow> Some (grid (mz st)) | _ \<Rightarrow> None)"

section \<open>Facts about the operations\<close>

lemma ebind_Inr [simp]: "ebind (Inr v) f = f v"
  by (simp add: ebind_def)

lemma ebind_Inl [simp]: "ebind (Inl e) f = Inl e"
  by (simp add: ebind_def)

subsection \<open>Reading and writing the array\<close>

lemma np_index_in_range: "0 \<le> i \<Longrightarrow> i < int n \<Longrightarrow> np_index n i = Inr (nat i)"
  by (simp add: np_index_def)

lemma row_length:
  assumes "well_shaped m" "0 \<le> x" "x < width m"
  shows "length (grid m ! nat x) = nat (height m)"
proof -
  from assms have "nat x < length (grid m)" by (simp add: well_shaped_def)
  then have "grid m ! nat x \<in> set (grid m)" by simp
  with assms(1) show ?thesis by (simp add: well_shaped_def list_all_iff)
qed

lemma grid_get_in_bounds:
  assumes "well_shaped m" "in_bounds m c"
  shows "grid_get (grid m) (fst c) (snd c) = Inr (passage m c)"
proof -
  from assms have l: "length (grid m) = nat (width m)" by (simp add: well_shaped_def)
  from assms have r: "length (grid m ! nat (fst c)) = nat (height m)"
    by (simp add: row_length in_bounds_def)
  from assms(2) l r show ?thesis
    by (simp add: grid_get_def np_index_in_range in_bounds_def passage_def)
qed

lemma grid_set_in_bounds:
  assumes "well_shaped m" "in_bounds m c"
  shows "grid_set (grid m) (fst c) (snd c) True = Inr (grid (carve m c))"
proof -
  from assms have l: "length (grid m) = nat (width m)" by (simp add: well_shaped_def)
  from assms have r: "length (grid m ! nat (fst c)) = nat (height m)"
    by (simp add: row_length in_bounds_def)
  from assms(2) l r show ?thesis
    by (simp add: grid_set_def np_index_in_range in_bounds_def carve_def)
qed

lemma in_bounds_grid_update [simp]: "in_bounds (m\<lparr>grid := g\<rparr>) d = in_bounds m d"
  by (simp add: in_bounds_def)

lemma in_bounds_carve [simp]: "in_bounds (carve m c) d = in_bounds m d"
  by (simp add: carve_def)

lemma well_shaped_carve:
  assumes "well_shaped m"
  shows "well_shaped (carve m c)"
proof -
  have "length (grid (carve m c) ! n) = nat (height m)" if "n < length (grid m)" for n
  proof (cases "n = nat (fst c)")
    case True
    with that assms show ?thesis by (simp add: carve_def well_shaped_def list_all_length)
  next
    case False
    with that assms show ?thesis by (simp add: carve_def well_shaped_def list_all_length)
  qed
  with assms show ?thesis by (simp add: well_shaped_def carve_def list_all_length)
qed

lemma passage_carve:
  assumes "well_shaped m" "in_bounds m c"
  shows "passage (carve m c) d = (d = c \<or> passage m d)"
proof (cases "in_bounds m d")
  case False
  with assms show ?thesis by (auto simp: passage_def)
next
  case True
  from assms have l: "nat (fst c) < length (grid m)"
    by (simp add: well_shaped_def in_bounds_def)
  from assms have r: "nat (snd c) < length (grid m ! nat (fst c))"
    by (simp add: row_length in_bounds_def)
  have e: "(nat (fst d) = nat (fst c) \<and> nat (snd d) = nat (snd c)) = (d = c)"
    using True assms(2) by (auto simp: in_bounds_def prod_eq_iff)
  show ?thesis using True assms(2) l r e
    by (auto simp: passage_def carve_def nth_list_update)
qed

subsection \<open>Frontier and neighbours on a well-shaped lattice\<close>

lemma add_if_wall:
  assumes "well_shaped m" "guard = in_bounds m c"
  shows "add_if (grid m) guard False c acc = Inr (ins_if (wall m) c acc)"
proof (cases guard)
  case True
  with assms show ?thesis by (simp add: add_if_def grid_get_in_bounds ins_if_def wall_def)
next
  case False
  with assms show ?thesis by (simp add: add_if_def ins_if_def wall_def)
qed

lemma add_if_passage:
  assumes "well_shaped m" "guard = in_bounds m c"
  shows "add_if (grid m) guard True c acc = Inr (ins_if (passage m) c acc)"
proof (cases guard)
  case True
  with assms show ?thesis by (simp add: add_if_def grid_get_in_bounds ins_if_def)
next
  case False
  with assms show ?thesis by (simp add: add_if_def passage_def ins_if_def)
qed

lemma set_pick: "set (pick P x y) = {c. dist2 (x, y) c \<and> P c}"
  by (auto simp: pick_def ins_if_def dist2_def)

lemma distinct_ins_if: "distinct acc \<Longrightarrow> distinct (ins_if P c acc)"
  by (simp add: ins_if_def)

lemma distinct_pick: "distinct (pick P x y)"
  by (simp add: pick_def distinct_ins_if)

lemma guards:
  assumes "in_bounds m (x, y)"
  shows "(x > 1) = in_bounds m (x - 2, y)" "(x + 2 < width m) = in_bounds m (x + 2, y)"
        "(y > 1) = in_bounds m (x, y - 2)" "(y + 2 < height m) = in_bounds m (x, y + 2)"
  using assms by (auto simp: in_bounds_def)

lemma frontier_pick:
  assumes "well_shaped m" "in_bounds m (x, y)"
  shows "frontier m x y = Inr (pick (wall m) x y)"
proof -
  from assms(2) have b: "x \<ge> 0 \<and> x < width m \<and> y \<ge> 0 \<and> y < height m"
    by (simp add: in_bounds_def)
  show ?thesis
    unfolding frontier_def pick_def
    by (simp only: b if_True add_if_wall [OF assms(1) guards(1) [OF assms(2)]]
        add_if_wall [OF assms(1) guards(2) [OF assms(2)]]
        add_if_wall [OF assms(1) guards(3) [OF assms(2)]]
        add_if_wall [OF assms(1) guards(4) [OF assms(2)]] ebind_Inr simp_thms)
qed

lemma neighbours_pick:
  assumes "well_shaped m" "in_bounds m (x, y)"
  shows "neighbours m x y = Inr (pick (passage m) x y)"
proof -
  from assms(2) have b: "x \<ge> 0 \<and> x < width m \<and> y \<ge> 0 \<and> y < height m"
    by (simp add: in_bounds_def)
  show ?thesis
    unfolding neighbours_def pick_def
    by (simp only: b if_True add_if_passage [OF assms(1) guards(1) [OF assms(2)]]
        add_if_passage [OF assms(1) guards(2) [OF assms(2)]]
        add_if_passage [OF assms(1) guards(3) [OF assms(2)]]
        add_if_passage [OF assms(1) guards(4) [OF assms(2)]] ebind_Inr simp_thms)
qed

lemma frontier_out: "\<not> in_bounds m (x, y) \<Longrightarrow> frontier m x y = Inr []"
  by (auto simp: frontier_def in_bounds_def)

lemma neighbours_out: "\<not> in_bounds m (x, y) \<Longrightarrow> neighbours m x y = Inr []"
  by (auto simp: neighbours_def in_bounds_def)

subsection \<open>One iteration of the loop\<close>

lemma popped_in_work: "work st \<noteq> [] \<Longrightarrow> popped rnd st \<in> set (work st)"
  by (simp add: popped_def)

lemma connect_carve:
  assumes "well_shaped m" "in_bounds m c" "in_bounds m (mid c d)"
  shows "connect m (fst c) (snd c) (fst d) (snd d) = Inr (carve (carve m c) (mid c d))"
proof -
  have 1: "grid_set (grid m) (fst c) (snd c) True = Inr (grid (carve m c))"
    using assms by (simp add: grid_set_in_bounds)
  have 2: "grid_set (grid (carve m c)) (fst (mid c d)) (snd (mid c d)) True
             = Inr (grid (carve (carve m c) (mid c d)))"
    using assms by (simp add: grid_set_in_bounds well_shaped_carve)
  have 3: "m\<lparr>grid := grid (carve (carve m c) (mid c d))\<rparr> = carve (carve m c) (mid c d)"
    by (simp add: carve_def)
  from 2 have m2: "grid_set (grid (carve m c)) ((fst c + fst d) div 2) ((snd c + snd d) div 2) True
             = Inr (grid (carve (carve m c) (mid c d)))"
    by (simp add: mid_def)
  show ?thesis
    unfolding connect_def Let_def by (simp only: 1 m2 3 ebind_Inr)
qed

lemma in_bounds_mid:
  assumes "in_bounds m c" "in_bounds m d"
  shows "in_bounds m (mid c d)"
  using assms by (auto simp: in_bounds_def mid_def)

lemma passage_connect:
  assumes "well_shaped m" "in_bounds m c" "in_bounds m d"
  shows "passage (carve (carve m c) (mid c d)) e = (e = c \<or> e = mid c d \<or> passage m e)"
  using assms by (auto simp: passage_carve well_shaped_carve in_bounds_mid)

lemma loop_body_connects:
  assumes ws: "well_shaped (mz st)" and ne: "work st \<noteq> []"
    and ib: "in_bounds (mz st) (popped rnd st)"
    and ns: "pick (passage (mz st)) (fst (popped rnd st)) (snd (popped rnd st)) \<noteq> []"
  shows "loop_body rnd st =
           Inr \<lparr>mz = carved rnd st,
                work = fold List.insert
                  (pick (wall (carved rnd st)) (fst (popped rnd st)) (snd (popped rnd st)))
                  (removeAll (popped rnd st) (work st)),
                draws = Suc (Suc (draws st)), pops = Suc (pops st),
                connects = Suc (connects st)\<rparr>"
proof -
  obtain x y where c: "popped rnd st = (x, y)" by (cases "popped rnd st")
  obtain nx ny where n: "chosen rnd st = (nx, ny)" by (cases "chosen rnd st")
  let ?ns = "pick (passage (mz st)) x y"
  from ns c have ns': "?ns \<noteq> []" by simp
  have 1: "choice rnd (draws st) (work st) = Inr (x, y)"
    using ne c by (simp add: choice_def popped_def)
  have 2: "neighbours (mz st) x y = Inr ?ns"
    using ws ib c by (simp add: neighbours_pick)
  have 3: "choice rnd (Suc (draws st)) ?ns = Inr (nx, ny)"
    using ns' n c by (simp add: choice_def chosen_def Let_def)
  have "chosen rnd st \<in> set ?ns"
    using ns' c by (simp add: chosen_def Let_def)
  then have pn: "passage (mz st) (nx, ny)"
    using n by (simp add: set_pick)
  then have "in_bounds (mz st) (mid (x, y) (nx, ny))"
    using ib c by (simp add: in_bounds_mid passage_def)
  then have 4: "connect (mz st) x y nx ny = Inr (carved rnd st)"
    using connect_carve [of "mz st" "(x, y)" "(nx, ny)"] ws ib c n by (simp add: carved_def)
  have "in_bounds (carved rnd st) (x, y)" "well_shaped (carved rnd st)"
    using ib c ws by (simp_all add: carved_def well_shaped_carve)
  then have 5: "frontier (carved rnd st) x y = Inr (pick (wall (carved rnd st)) x y)"
    by (simp add: frontier_pick)
  show ?thesis
    unfolding loop_body_def by (simp add: 1 2 3 4 5 ns' c)
qed

subsection \<open>Monotonicity and the geometry of distance 2\<close>

lemma reach4_mono:
  assumes "reach4 m c" "\<And>d. passage m d \<Longrightarrow> passage m' d"
  shows "reach4 m' c"
  using assms(1)
proof induction
  case reach4_origin
  then show ?case by (simp add: assms(2) reach4.reach4_origin)
next
  case (reach4_step c d)
  then show ?case by (meson assms(2) reach4.reach4_step)
qed

lemma reach2_mono:
  assumes "reach2 m c" "\<And>d. passage m d \<Longrightarrow> passage m' d"
  shows "reach2 m' c"
  using assms(1)
proof induction
  case reach2_origin
  then show ?case by (simp add: assms(2) reach2.reach2_origin)
next
  case (reach2_step c d)
  then show ?case by (meson assms(2) reach2.reach2_step)
qed

lemma link_ok_mono:
  assumes "link_ok m c" "\<And>d. passage m d \<Longrightarrow> passage m' d"
  shows "link_ok m' c"
  using assms unfolding link_ok_def by blast

lemma dist2_sym: "dist2 c d \<Longrightarrow> dist2 d c"
  by (auto simp: dist2_def)

lemma dist2_node: "dist2 c d \<Longrightarrow> node c \<Longrightarrow> node d"
  by (auto simp: dist2_def node_def)

lemma mid_simps:
  "mid (x, y) (x + 2, y) = (x + 1, y)" "mid (x, y) (x - 2, y) = (x - 1, y)"
  "mid (x, y) (x, y + 2) = (x, y + 1)" "mid (x, y) (x, y - 2) = (x, y - 1)"
proof -
  have a: "(x + (x + 2)) div 2 = x + 1" "(x + (x - 2)) div 2 = x - 1" "(x + x) div 2 = x" for x :: int
    by presburger+
  show "mid (x, y) (x + 2, y) = (x + 1, y)" "mid (x, y) (x - 2, y) = (x - 1, y)"
    "mid (x, y) (x, y + 2) = (x, y + 1)" "mid (x, y) (x, y - 2) = (x, y - 1)"
    by (simp_all only: mid_def fst_conv snd_conv a)
qed

lemma dist2_cases:
  assumes "dist2 c d"
  obtains x y where "c = (x, y)" "d = (x + 2, y)"
  | x y where "c = (x, y)" "d = (x - 2, y)"
  | x y where "c = (x, y)" "d = (x, y + 2)"
  | x y where "c = (x, y)" "d = (x, y - 2)"
  using assms by (cases c; cases d) (auto simp: dist2_def)

lemma mid_not_node: "dist2 c d \<Longrightarrow> node c \<Longrightarrow> \<not> node (mid c d)"
  by (erule dist2_cases) (simp_all add: mid_simps node_def)

lemma mid_adj4:
  "dist2 c d \<Longrightarrow> adj4 c (mid c d) \<and> adj4 (mid c d) d"
  by (erule dist2_cases) (simp_all add: mid_simps adj4_def)

lemma mid_link:
  assumes "dist2 c d" "node c" "passage m c" "passage m d"
  shows "link_ok m (mid c d)"
  using assms by (elim dist2_cases) (simp_all add: mid_simps node_def link_ok_def add.commute)

lemma link_ends:
  assumes "dist2 c d" "node c" "link_ok m (mid c d)"
  shows "passage m c"
  using assms by (elim dist2_cases) (simp_all add: mid_simps node_def link_ok_def)

lemma mid_sym: "mid c d = mid d c"
  by (simp add: mid_def add.commute)

subsection \<open>Finiteness\<close>

lemma in_bounds_rect: "{c. in_bounds m c} = {0..<width m} \<times> {0..<height m}"
  by (auto simp: in_bounds_def)

lemma finite_in_bounds: "finite {c. in_bounds m c}"
  by (simp add: in_bounds_rect)

lemma card_in_bounds: "card {c. in_bounds m c} = nat (width m) * nat (height m)"
  by (simp add: in_bounds_rect card_cartesian_product)

lemma finite_passages: "finite {c. passage m c \<and> Q c}"
  by (rule finite_subset [OF _ finite_in_bounds [of m]]) (auto simp: passage_def)

lemma finite_walls: "finite {c. wall m c}"
  by (rule finite_subset [OF _ finite_in_bounds [of m]]) (auto simp: wall_def)

subsection \<open>The step that the invariant allows\<close>

lemma pop_facts:
  assumes "work_ok st" "work st \<noteq> []"
  shows "node (popped rnd st)" "wall (mz st) (popped rnd st)"
    "pick (passage (mz st)) (fst (popped rnd st)) (snd (popped rnd st)) \<noteq> []"
    "dist2 (popped rnd st) (chosen rnd st)" "passage (mz st) (chosen rnd st)"
proof -
  let ?c = "popped rnd st"
  let ?ns = "pick (passage (mz st)) (fst ?c) (snd ?c)"
  from assms have w: "node ?c \<and> wall (mz st) ?c \<and> (\<exists>n. dist2 ?c n \<and> passage (mz st) n)"
    using popped_in_work [of st rnd] by (auto simp: work_ok_def)
  then show "node ?c" "wall (mz st) ?c" by simp_all
  from w have "set ?ns \<noteq> {}" by (simp add: set_pick)
  then show ne: "?ns \<noteq> []" by auto
  then have "chosen rnd st \<in> set ?ns" by (simp add: chosen_def Let_def)
  then show "dist2 ?c (chosen rnd st)" "passage (mz st) (chosen rnd st)"
    by (simp_all add: set_pick)
qed

lemma loop_body_next:
  assumes "well_shaped (mz st)" "work_ok st" "work st \<noteq> []"
  shows "loop_body rnd st = Inr (next_state rnd st)"
  unfolding next_state_def
  using assms pop_facts [OF assms(2,3), of rnd]
  by (intro loop_body_connects) (simp_all add: wall_def)

lemma passage_carved:
  assumes "well_shaped (mz st)" "work_ok st" "work st \<noteq> []"
  shows "passage (carved rnd st) e =
           (e = popped rnd st \<or> e = mid (popped rnd st) (chosen rnd st) \<or> passage (mz st) e)"
  unfolding carved_def
  using assms pop_facts [OF assms(2,3), of rnd]
  by (intro passage_connect) (simp_all add: wall_def passage_def)

lemma carve_dims [simp]: "width (carve m c) = width m" "height (carve m c) = height m"
  by (simp_all add: carve_def)

lemma carved_shape:
  assumes "well_shaped (mz st)"
  shows "well_shaped (carved rnd st)" "in_bounds (carved rnd st) e = in_bounds (mz st) e"
    "width (carved rnd st) = width (mz st)" "height (carved rnd st) = height (mz st)"
  using assms by (simp_all add: carved_def well_shaped_carve)

lemma set_work_next:
  "set (work (next_state rnd st)) =
     {e. dist2 (popped rnd st) e \<and> wall (carved rnd st) e} \<union> (set (work st) - {popped rnd st})"
  by (simp add: next_state_def List.union_def [symmetric] set_pick)

subsection \<open>The invariant is kept\<close>

lemma invD:
  assumes "loop_inv st"
  shows "well_shaped (mz st)" "passage (mz st) (0, 0)" "work_ok st"
    "\<And>c. passage (mz st) c \<Longrightarrow> node c \<or> link_ok (mz st) c"
    "\<And>c. passage (mz st) c \<Longrightarrow> reach4 (mz st) c"
    "\<And>c. passage (mz st) c \<Longrightarrow> node c \<Longrightarrow> reach2 (mz st) c"
    "card {c. passage (mz st) c \<and> node c} = Suc (connects st)"
    "card {c. passage (mz st) c \<and> \<not> node c} = connects st"
    "pops st = connects st" "draws st = 2 * pops st"
  using assms unfolding loop_inv_def by blast+

lemma invI:
  assumes "well_shaped (mz st)" "passage (mz st) (0, 0)" "work_ok st"
    "\<And>c. passage (mz st) c \<Longrightarrow> node c \<or> link_ok (mz st) c"
    "\<And>c. passage (mz st) c \<Longrightarrow> reach4 (mz st) c"
    "\<And>c. passage (mz st) c \<Longrightarrow> node c \<Longrightarrow> reach2 (mz st) c"
    "card {c. passage (mz st) c \<and> node c} = Suc (connects st)"
    "card {c. passage (mz st) c \<and> \<not> node c} = connects st"
    "pops st = connects st" "draws st = 2 * pops st"
  shows "loop_inv st"
  using assms unfolding loop_inv_def by blast

lemma inv_next:
  assumes i: "loop_inv st" and ne: "work st \<noteq> []"
  shows "loop_inv (next_state rnd st)"
proof -
  let ?m = "mz st" and ?m' = "carved rnd st"
  let ?c = "popped rnd st" and ?n = "chosen rnd st"
  note ws = invD(1) [OF i] and wo = invD(3) [OF i]
  note pf = pop_facts [OF wo ne, of rnd]
  note pc = passage_carved [OF ws wo ne, of rnd]
  have mono: "passage ?m' e" if "passage ?m e" for e using that by (simp add: pc)
  have pcn: "passage ?m' ?c" "passage ?m' ?n" "passage ?m' (mid ?c ?n)"
    using pf(5) by (simp_all add: pc)
  have mz': "mz (next_state rnd st) = ?m'" by (simp add: next_state_def)
  have 1: "well_shaped ?m'" using ws by (rule carved_shape)
  have 2: "passage ?m' (0, 0)" using invD(2) [OF i] by (rule mono)
  have nmid: "\<not> node (mid ?c ?n)" using pf(4) pf(1) by (rule mid_not_node)
  have 3: "work_ok (next_state rnd st)"
    unfolding work_ok_def
  proof
    fix e assume "e \<in> set (work (next_state rnd st))"
    then consider "dist2 ?c e" "wall ?m' e" | "e \<in> set (work st)" "e \<noteq> ?c"
      by (auto simp: set_work_next)
    then show "node e \<and> wall (mz (next_state rnd st)) e \<and>
                 (\<exists>n. dist2 e n \<and> passage (mz (next_state rnd st)) n)"
    proof cases
      case 1
      from 1(1) have "dist2 e ?c" by (rule dist2_sym)
      with pcn(1) have "\<exists>n. dist2 e n \<and> passage ?m' n" by blast
      with 1 show ?thesis using pf(1) by (simp add: mz' dist2_node)
    next
      case 2
      with wo have e: "node e" "wall ?m e" "\<exists>n. dist2 e n \<and> passage ?m n"
        by (auto simp: work_ok_def)
      from e(1) nmid have "e \<noteq> mid ?c ?n" by auto
      with e(2) 2(2) have "wall ?m' e" using carved_shape(2) [OF ws, of rnd e]
        by (simp add: wall_def pc)
      with e show ?thesis using mono by (auto simp: mz')
    qed
  qed
  have 4: "node e \<or> link_ok ?m' e" if "passage ?m' e" for e
  proof -
    from that consider "e = ?c" | "e = mid ?c ?n" | "passage ?m e" by (auto simp: pc)
    then show ?thesis
    proof cases
      case 1 then show ?thesis using pf(1) by simp
    next
      case 2 then show ?thesis using mid_link [OF pf(4) pf(1) pcn(1) pcn(2)] by simp
    next
      case 3
      then have "node e \<or> link_ok ?m e" by (rule invD(4) [OF i])
      then show ?thesis using link_ok_mono [of ?m e ?m'] mono by blast
    qed
  qed
  have old4: "reach4 ?m' e" if "passage ?m e" for e
    using invD(5) [OF i that] reach4_mono [of ?m e ?m'] mono by blast
  have r4n: "reach4 ?m' ?n" using pf(5) by (rule old4)
  have adj: "adj4 ?n (mid ?c ?n)" "adj4 (mid ?c ?n) ?c"
    using mid_adj4 [OF dist2_sym [OF pf(4)]] by (simp_all add: mid_sym)
  have r4m: "reach4 ?m' (mid ?c ?n)" using r4n adj(1) pcn(3) by (rule reach4_step)
  have r4c: "reach4 ?m' ?c" using r4m adj(2) pcn(1) by (rule reach4_step)
  have 5: "reach4 ?m' e" if "passage ?m' e" for e
    using that r4m r4c old4 unfolding pc by blast
  have nn: "node ?n" using pf(4) pf(1) by (rule dist2_node)
  have old2: "reach2 ?m' e" if "passage ?m e" "node e" for e
    using invD(6) [OF i that] reach2_mono [of ?m e ?m'] mono by blast
  have r2n: "reach2 ?m' ?n" using pf(5) nn by (rule old2)
  have r2c: "reach2 ?m' ?c"
    using r2n dist2_sym [OF pf(4)] pcn(3) pcn(1) reach2_step [of ?m' ?n ?c]
    by (simp add: mid_sym)
  have 6: "reach2 ?m' e" if "passage ?m' e" "node e" for e
    using that r2c old2 nmid unfolding pc by blast
  have cw: "\<not> passage ?m ?c" using pf(2) by (simp add: wall_def)
  have mw: "\<not> passage ?m (mid ?c ?n)"
  proof
    assume p: "passage ?m (mid ?c ?n)"
    then have "node (mid ?c ?n) \<or> link_ok ?m (mid ?c ?n)" by (rule invD(4) [OF i])
    with nmid have "link_ok ?m (mid ?c ?n)" by simp
    with pf(4) pf(1) have "passage ?m ?c" by (rule link_ends)
    with cw show False by simp
  qed
  have "{e. passage ?m' e \<and> node e} = insert ?c {e. passage ?m e \<and> node e}"
    using pf(1) nmid by (auto simp: pc)
  then have 7: "card {e. passage ?m' e \<and> node e} = Suc (Suc (connects st))"
    using cw invD(7) [OF i] finite_passages [of ?m node] by simp
  have "{e. passage ?m' e \<and> \<not> node e} = insert (mid ?c ?n) {e. passage ?m e \<and> \<not> node e}"
    using pf(1) nmid by (auto simp: pc)
  then have 8: "card {e. passage ?m' e \<and> \<not> node e} = Suc (connects st)"
    using mw invD(8) [OF i] finite_passages [of ?m "\<lambda>e. \<not> node e"] by simp
  have 9: "pops (next_state rnd st) = connects (next_state rnd st)"
    "draws (next_state rnd st) = 2 * pops (next_state rnd st)"
    "connects (next_state rnd st) = Suc (connects st)"
    using invD(9,10) [OF i] by (simp_all add: next_state_def)
  show ?thesis
    by (rule invI) (simp_all only: mz' 1 2 3 4 5 6 7 8 9)
qed

subsection \<open>The statements before the loop\<close>

lemma blank_shape: "well_shaped (blank w h)" "width (blank w h) = w" "height (blank w h) = h"
  by (simp_all add: blank_def well_shaped_def list_all_length)

lemma blank_wall: "\<not> passage (blank w h) c"
  by (auto simp: passage_def blank_def in_bounds_def)

lemma np_zeros_blank: "0 \<le> w \<Longrightarrow> 0 \<le> h \<Longrightarrow> np_zeros w h = Inr (grid (blank w h))"
  by (simp add: np_zeros_def blank_def)

lemma blank_eq: "\<lparr>width = w, height = h, grid = grid (blank w h)\<rparr> = blank w h"
  by (simp add: blank_def)

lemma generate_init_blank:
  assumes "1 \<le> w" "1 \<le> h"
  shows "generate_init (blank w h) = Inr (first_state w h)"
proof -
  let ?m = "blank w h"
  have ib: "in_bounds ?m (0, 0)" using assms by (simp add: in_bounds_def blank_shape)
  have 1: "grid_set (grid ?m) 0 0 True = Inr (grid (carve ?m (0, 0)))"
    using grid_set_in_bounds [OF blank_shape(1) ib] by simp
  have 2: "?m\<lparr>grid := grid (carve ?m (0, 0))\<rparr> = carve ?m (0, 0)"
    by (simp add: carve_def)
  have 3: "frontier (carve ?m (0, 0)) 0 0 = Inr (pick (wall (carve ?m (0, 0))) 0 0)"
    using ib by (simp add: frontier_pick well_shaped_carve blank_shape)
  show ?thesis
    unfolding generate_init_def first_state_def by (simp only: 1 2 3 ebind_Inr)
qed

lemma Maze_Generator_loop:
  assumes "1 \<le> w" "1 \<le> h"
  shows "Maze_Generator rnd w h = generate_loop rnd (first_state w h)"
  using assms
  by (simp add: Maze_Generator_def generate_def np_zeros_blank blank_eq generate_init_blank)

lemma passage_first:
  assumes "1 \<le> w" "1 \<le> h"
  shows "passage (mz (first_state w h)) c = (c = (0, 0))"
proof -
  have "in_bounds (blank w h) (0, 0)" using assms by (simp add: in_bounds_def blank_shape)
  then show ?thesis
    by (simp add: first_state_def passage_carve blank_shape blank_wall)
qed

lemma inv_first:
  assumes "1 \<le> w" "1 \<le> h"
  shows "loop_inv (first_state w h)"
proof (rule invI)
  let ?st = "first_state w h"
  note p = passage_first [OF assms]
  show "well_shaped (mz ?st)" by (simp add: first_state_def well_shaped_carve blank_shape)
  show o: "passage (mz ?st) (0, 0)" by (simp add: p)
  show "work_ok ?st"
    unfolding work_ok_def
  proof
    fix e assume "e \<in> set (work ?st)"
    then have e: "dist2 (0, 0) e" "wall (mz ?st) e"
      by (simp_all add: first_state_def List.union_def [symmetric] set_pick)
    have "node (0, 0)" by (simp add: node_def)
    with e(1) have "node e" by (rule dist2_node)
    moreover from e(1) have "dist2 e (0, 0)" by (rule dist2_sym)
    with o have "\<exists>n. dist2 e n \<and> passage (mz ?st) n" by blast
    ultimately show "node e \<and> wall (mz ?st) e \<and> (\<exists>n. dist2 e n \<and> passage (mz ?st) n)"
      using e(2) by simp
  qed
  show "node c \<or> link_ok (mz ?st) c" if "passage (mz ?st) c" for c
    using that by (simp add: p node_def)
  show "reach4 (mz ?st) c" if "passage (mz ?st) c" for c
    using that o by (simp add: p reach4_origin)
  show "reach2 (mz ?st) c" if "passage (mz ?st) c" "node c" for c
    using that o by (simp add: p reach2_origin)
  have c0: "connects ?st = 0" by (simp add: first_state_def)
  have "{c. passage (mz ?st) c \<and> node c} = {(0, 0)}" by (auto simp: p node_def)
  then show "card {c. passage (mz ?st) c \<and> node c} = Suc (connects ?st)"
    by (simp only: c0 card.empty card_insert_disjoint finite.emptyI empty_iff not_False_eq_True)
  have "{c. passage (mz ?st) c \<and> \<not> node c} = {}" by (auto simp: p node_def)
  then show "card {c. passage (mz ?st) c \<and> \<not> node c} = connects ?st"
    by (simp only: c0 card.empty)
  show "pops ?st = connects ?st" "draws ?st = 2 * pops ?st"
    by (simp_all add: first_state_def)
qed

subsection \<open>Termination: an induction rule for the loop\<close>

lemma walls_decrease:
  assumes "loop_inv st" "work st \<noteq> []"
  shows "card {c. wall (mz (next_state rnd st)) c} < card {c. wall (mz st) c}"
proof (rule psubset_card_mono [OF finite_walls])
  note ws = invD(1) [OF assms(1)] and wo = invD(3) [OF assms(1)]
  note pf = pop_facts [OF wo assms(2), of rnd]
  note pc = passage_carved [OF ws wo assms(2), of rnd]
  have mz': "mz (next_state rnd st) = carved rnd st" by (simp add: next_state_def)
  have "wall (mz st) e" if "wall (carved rnd st) e" for e
    using that carved_shape(2) [OF ws, of rnd e] by (simp add: wall_def pc)
  moreover have "\<not> wall (carved rnd st) (popped rnd st)" by (simp add: wall_def pc)
  ultimately show "{c. wall (mz (next_state rnd st)) c} \<subset> {c. wall (mz st) c}"
    unfolding mz' using pf(2) by blast
qed

lemma generate_loop_done: "work st = [] \<Longrightarrow> generate_loop rnd st = Some (Inr st)"
  by (subst generate_loop.simps) simp

lemma generate_loop_iter:
  "work st \<noteq> [] \<Longrightarrow> loop_body rnd st = Inr st' \<Longrightarrow> generate_loop rnd st = generate_loop rnd st'"
  by (subst generate_loop.simps) simp

lemma loop_body_inv:
  assumes "loop_inv st" "work st \<noteq> []"
  shows "loop_body rnd st = Inr (next_state rnd st)"
  using invD(1,3) [OF assms(1)] assms(2) by (rule loop_body_next)

lemma loop_induct:
  assumes i: "loop_inv st"
    and stop: "\<And>st. loop_inv st \<Longrightarrow> work st = [] \<Longrightarrow> P st st"
    and iter: "\<And>st st'. loop_inv st \<Longrightarrow> work st \<noteq> [] \<Longrightarrow> P (next_state rnd st) st' \<Longrightarrow>
       generate_loop rnd (next_state rnd st) = Some (Inr st') \<Longrightarrow> P st st'"
  shows "\<exists>st'. generate_loop rnd st = Some (Inr st') \<and> P st st'"
  using i
proof (induction "card {c. wall (mz st) c}" arbitrary: st rule: less_induct)
  case less
  show ?case
  proof (cases "work st = []")
    case True
    then show ?thesis using less.prems by (simp add: generate_loop_done stop)
  next
    case False
    let ?st1 = "next_state rnd st"
    have "loop_inv ?st1" using less.prems False by (rule inv_next)
    moreover have "card {c. wall (mz ?st1) c} < card {c. wall (mz st) c}"
      using less.prems False by (rule walls_decrease)
    ultimately obtain st' where st': "generate_loop rnd ?st1 = Some (Inr st')" "P ?st1 st'"
      using less.hyps by blast
    have "generate_loop rnd st = generate_loop rnd ?st1"
      using False loop_body_inv [OF less.prems False] by (rule generate_loop_iter)
    then show ?thesis using st' iter [OF less.prems False st'(2) st'(1)] by simp
  qed
qed

subsection \<open>The heads of the loop of a run\<close>

lemma loop_head_first: "1 \<le> w \<Longrightarrow> 1 \<le> h \<Longrightarrow> loop_head rnd w h (first_state w h)"
  using loop_start [of w h "grid (blank w h)" "first_state w h" rnd]
  by (simp add: np_zeros_blank blank_eq generate_init_blank)

lemma generate_init_empty:
  assumes "0 \<le> w" "0 \<le> h" "w = 0 \<or> h = 0"
  shows "generate_init (blank w h) = Inl IndexError"
proof (cases "w = 0")
  case True
  then show ?thesis
    by (simp add: generate_init_def blank_def grid_set_def np_index_def index_error_def)
next
  case False
  with assms have "h = 0" "0 < nat w" by simp_all
  then show ?thesis
    by (simp add: generate_init_def blank_def grid_set_def np_index_def index_error_def)
qed

lemma Maze_Generator_fails:
  assumes "\<not> (1 \<le> w \<and> 1 \<le> h)"
  shows "Maze_Generator rnd w h = Some (Inl (if w < 0 \<or> h < 0 then ValueError else IndexError))"
proof (cases "w < 0 \<or> h < 0")
  case True
  then show ?thesis by (simp add: Maze_Generator_def np_zeros_def)
next
  case False
  with assms have "0 \<le> w" "0 \<le> h" "w = 0 \<or> h = 0" by auto
  then show ?thesis using False
    by (simp add: Maze_Generator_def generate_def np_zeros_blank blank_eq generate_init_empty)
qed

lemma loop_start_dims:
  assumes "np_zeros w h = Inr g" "generate_init \<lparr>width = w, height = h, grid = g\<rparr> = Inr st"
  shows "1 \<le> w \<and> 1 \<le> h \<and> st = first_state w h"
proof (cases "1 \<le> w \<and> 1 \<le> h")
  case True
  with assms(1) have "g = grid (blank w h)" by (simp add: np_zeros_blank)
  with assms(2) True show ?thesis by (simp add: blank_eq generate_init_blank)
next
  case False
  from assms(1) have nn: "0 \<le> w" "0 \<le> h" by (auto simp: np_zeros_def split: if_splits)
  with False have z: "w = 0 \<or> h = 0" by auto
  from assms(1) nn have "g = grid (blank w h)" by (simp add: np_zeros_blank)
  with assms(2) have "generate_init (blank w h) = Inr st" by (simp add: blank_eq)
  with generate_init_empty [OF nn z] show ?thesis by simp
qed

lemma loop_head_inv:
  assumes "loop_head rnd w h st"
  shows "loop_inv st \<and> 1 \<le> w \<and> 1 \<le> h \<and> width (mz st) = w \<and> height (mz st) = h"
  using assms
proof induction
  case (loop_start g st)
  then have "1 \<le> w \<and> 1 \<le> h \<and> st = first_state w h" by (rule loop_start_dims)
  then show ?case by (simp add: inv_first) (simp add: first_state_def blank_shape)
next
  case (loop_iter st st')
  then have "st' = next_state rnd st" using loop_body_inv [of st rnd] by simp
  with loop_iter show ?case
    by (simp add: inv_next) (simp add: next_state_def carved_shape invD(1))
qed

lemma loop_head_next:
  assumes "loop_head rnd w h st" "work st \<noteq> []"
  shows "loop_head rnd w h (next_state rnd st)"
  using assms loop_body_inv [of st rnd] loop_head_inv [OF assms(1)]
  by (auto intro: loop_iter)

lemma generate_loop_result:
  assumes "loop_head rnd w h st"
  shows "\<exists>st'. generate_loop rnd st = Some (Inr st') \<and>
           (loop_head rnd w h st \<longrightarrow> loop_head rnd w h st' \<and> work st' = [])"
proof (rule loop_induct)
  show "loop_inv st" using assms loop_head_inv by blast
next
  fix st :: gstate assume "work st = []"
  then show "loop_head rnd w h st \<longrightarrow> loop_head rnd w h st \<and> work st = []" by simp
next
  fix st st' :: gstate assume "work st \<noteq> []"
    "loop_head rnd w h (next_state rnd st) \<longrightarrow> loop_head rnd w h st' \<and> work st' = []"
  then show "loop_head rnd w h st \<longrightarrow> loop_head rnd w h st' \<and> work st' = []"
    using loop_head_next by blast
qed

lemma Maze_Generator_result:
  assumes "1 \<le> w" "1 \<le> h"
  shows "\<exists>st. Maze_Generator rnd w h = Some (Inr st) \<and> loop_head rnd w h st \<and> work st = []"
  using generate_loop_result [OF loop_head_first [OF assms], of rnd] loop_head_first [OF assms, of rnd]
  by (simp add: Maze_Generator_loop [OF assms])

lemma Maze_Generator_Some:
  assumes "Maze_Generator rnd w h = Some (Inr st)"
  shows "loop_head rnd w h st \<and> work st = []"
proof (cases "1 \<le> w \<and> 1 \<le> h")
  case True
  then show ?thesis using Maze_Generator_result [of w h rnd] assms by auto
next
  case False
  then show ?thesis using Maze_Generator_fails [of w h rnd] assms by simp
qed

lemma final_inv:
  assumes "1 \<le> w" "1 \<le> h"
  obtains st where "Maze_Generator rnd w h = Some (Inr st)" "loop_inv st" "work st = []"
    "width (mz st) = w" "height (mz st) = h" "loop_head rnd w h st"
  using Maze_Generator_result [OF assms, of rnd] loop_head_inv [of rnd w h] by blast

lemma pops_bound:
  assumes "loop_inv st"
  shows "pops st < nat (width (mz st)) * nat (height (mz st))"
proof -
  have "{c. passage (mz st) c \<and> node c} \<subseteq> {c. in_bounds (mz st) c}"
    by (auto simp: passage_def)
  then have "card {c. passage (mz st) c \<and> node c} \<le> card {c. in_bounds (mz st) c}"
    using finite_in_bounds by (rule card_mono [rotated])
  then show ?thesis using invD(7,9) [OF assms] by (simp add: card_in_bounds)
qed

section \<open>The claims\<close>

subsection \<open>C1: connectivity\<close>

text \<open>
  Claim C1. For every width and height of at least 1 and every sequence of draws,
  \<^verbatim>\<open>__generate\<close> completes, and in the maze it leaves every passage cell is reachable from
  the origin \<open>(0, 0)\<close> by steps between 4-adjacent passage cells (\<open>reach4\<close>); every
  passage cell with two even coordinates is moreover reachable by steps of exactly 2 along
  one axis whose intermediate cell is a passage too (\<open>reach2\<close>).
\<close>

theorem connectivity:
  assumes "1 \<le> w" "1 \<le> h"
  shows "\<exists>st. Maze_Generator rnd w h = Some (Inr st) \<and>
           (\<forall>c. passage (mz st) c \<longrightarrow> reach4 (mz st) c) \<and>
           (\<forall>c. passage (mz st) c \<and> even (fst c) \<and> even (snd c) \<longrightarrow> reach2 (mz st) c)"
proof -
  obtain st where st: "Maze_Generator rnd w h = Some (Inr st)" "loop_inv st"
    using assms by (rule final_inv)
  have "reach4 (mz st) c" if "passage (mz st) c" for c
    using that by (rule invD(5) [OF st(2)])
  moreover have "reach2 (mz st) c" if "passage (mz st) c" "even (fst c)" "even (snd c)" for c
    using that invD(6) [OF st(2), of c] by (simp add: node_def)
  ultimately show ?thesis using st(1) by blast
qed

theorem connectivity_witness:
  "(1::int) \<le> 3 \<and> Maze_Generator zero_draws 3 3 = Some (Inr three_by_three) \<and>
   passage (mz three_by_three) (2, 2) \<and>
   reach4 (mz three_by_three) (2, 2) \<and> reach2 (mz three_by_three) (2, 2)"
proof -
  have 1: "(1::int) \<le> 3" by simp
  have 2: "Maze_Generator zero_draws 3 3 = Some (Inr three_by_three)" by code_simp
  have 3: "passage (mz three_by_three) (2, 2)" by code_simp
  from connectivity [OF 1 1, of zero_draws] 2
  have r: "(\<forall>c. passage (mz three_by_three) c \<longrightarrow> reach4 (mz three_by_three) c) \<and>
    (\<forall>c. passage (mz three_by_three) c \<and> even (fst c) \<and> even (snd c) \<longrightarrow>
       reach2 (mz three_by_three) c)"
    by simp
  from r 3 have 4: "reach4 (mz three_by_three) (2, 2)" by blast
  from r have "passage (mz three_by_three) (2, 2) \<and> even (fst (2::int, 2::int)) \<and>
      even (snd (2::int, 2::int)) \<longrightarrow> reach2 (mz three_by_three) (2, 2)"
    by (elim conjE allE [of _ "(2, 2)"])
  with 3 have 5: "reach2 (mz three_by_three) (2, 2)" by simp
  show ?thesis by (intro conjI 1 2 3 4 5)
qed

subsection \<open>C3: termination\<close>

text \<open>
  Claim C3. For every width and height of at least 1 and every sequence of draws the loop
  of \<^verbatim>\<open>__generate\<close> terminates: the constructor returns a maze, the working set is empty
  then, and the number of iterations of the loop (the pops) is at most
  \<open>4 * width * height\<close>.
\<close>

theorem generation_terminates:
  assumes "1 \<le> w" "1 \<le> h"
  shows "\<exists>st. Maze_Generator rnd w h = Some (Inr st) \<and> work st = [] \<and>
           int (pops st) \<le> 4 * w * h"
proof -
  obtain st where st: "Maze_Generator rnd w h = Some (Inr st)" "loop_inv st" "work st = []"
    "width (mz st) = w" "height (mz st) = h"
    using assms by (rule final_inv)
  from pops_bound [OF st(2)] have "pops st < nat w * nat h" by (simp add: st)
  then have "int (pops st) < int (nat w * nat h)" by (simp only: of_nat_less_iff)
  also have "\<dots> = w * h" using assms by simp
  also have "\<dots> \<le> 4 * (w * h)" using assms by simp
  finally show ?thesis using st(1,3) by auto
qed

theorem generation_terminates_witness:
  "(1::int) \<le> 3 \<and>
   (\<exists>st. Maze_Generator zero_draws 3 3 = Some (Inr st) \<and> work st = [] \<and>
      int (pops st) \<le> 4 * 3 * 3)"
  using generation_terminates [of 3 3 zero_draws] by simp

subsection \<open>C6: frontier and neighbours\<close>

text \<open>
  Claim C6 says that for every coordinate \<open>(x, y)\<close> \<^verbatim>\<open>__frontier(x, y)\<close> returns exactly
  the in-bounds walls at distance 2, and \<^verbatim>\<open>__neighbours(x, y)\<close> exactly the in-bounds
  passages at distance 2. Both operations test their argument first and return the empty
  set for a coordinate outside the lattice: at \<open>(-2, 1)\<close> the wall \<open>(0, 1)\<close> is at distance
  2 and is not returned, at \<open>(-2, 0)\<close> the passage \<open>(0, 0)\<close> is at distance 2 and is not
  returned.
\<close>

theorem frontier_guard_counterexample:
  "frontier corner_maze (- 2) 1 = Inr [] \<and>
   in_bounds corner_maze (0, 1) \<and> dist2 (- 2, 1) (0, 1) \<and> \<not> passage corner_maze (0, 1) \<and>
   neighbours corner_maze (- 2) 0 = Inr [] \<and>
   in_bounds corner_maze (0, 0) \<and> dist2 (- 2, 0) (0, 0) \<and> passage corner_maze (0, 0)"
  by code_simp

text \<open>
  Claim C6, amended. For every coordinate \<open>(x, y)\<close> of the lattice and every state of the
  lattice, \<^verbatim>\<open>__frontier(x, y)\<close> returns exactly the in-bounds cells at distance exactly 2
  from \<open>(x, y)\<close> along one axis that are walls, and \<^verbatim>\<open>__neighbours(x, y)\<close> exactly those
  that are passages; for a coordinate outside the lattice both return the empty set. Both
  are functions of the maze that return a set only: the source bodies assign to nothing
  but their local set, so no state is changed.
\<close>

theorem frontier_neighbours_exact:
  assumes "well_shaped m"
  shows "\<exists>fs ns. frontier m x y = Inr fs \<and> neighbours m x y = Inr ns \<and>
           distinct fs \<and> distinct ns \<and>
           set fs = {c. in_bounds m (x, y) \<and> in_bounds m c \<and> dist2 (x, y) c \<and> \<not> passage m c} \<and>
           set ns = {c. in_bounds m (x, y) \<and> in_bounds m c \<and> dist2 (x, y) c \<and> passage m c}"
proof (cases "in_bounds m (x, y)")
  case True
  have "set (pick (wall m) x y) = {c. in_bounds m c \<and> dist2 (x, y) c \<and> \<not> passage m c}"
    by (auto simp: set_pick wall_def)
  moreover have "set (pick (passage m) x y) = {c. in_bounds m c \<and> dist2 (x, y) c \<and> passage m c}"
    by (auto simp: set_pick passage_def)
  ultimately show ?thesis
    using assms True by (simp add: frontier_pick neighbours_pick distinct_pick)
next
  case False
  then show ?thesis by (simp add: frontier_out neighbours_out)
qed

theorem frontier_neighbours_exact_witness:
  "well_shaped corner_maze \<and>
   (\<exists>fs ns. frontier corner_maze 0 0 = Inr fs \<and> neighbours corner_maze 0 0 = Inr ns \<and>
      distinct fs \<and> distinct ns \<and>
      set fs = {c. in_bounds corner_maze (0, 0) \<and> in_bounds corner_maze c \<and> dist2 (0, 0) c \<and>
                  \<not> passage corner_maze c} \<and>
      set ns = {c. in_bounds corner_maze (0, 0) \<and> in_bounds corner_maze c \<and> dist2 (0, 0) c \<and>
                  passage corner_maze c})"
proof -
  have 1: "well_shaped corner_maze" by (simp add: well_shaped_def corner_maze_def)
  show ?thesis using 1 frontier_neighbours_exact [OF 1, of 0 0] by simp
qed

subsection \<open>C7: connect\<close>

lemma mid_mean:
  assumes "dist2 c d"
  shows "2 * fst (mid c d) = fst c + fst d \<and> 2 * snd (mid c d) = snd c + snd d"
  using assms by (elim dist2_cases) (simp_all add: mid_simps)

text \<open>
  Claim C7. For every pair of lattice coordinates (of the wall and of the passage to
  connect) that differ by exactly 2 along exactly one axis, \<^verbatim>\<open>__connect\<close> returns without
  an exception, the cell \<open>(x1, y1)\<close> and the
  midpoint (the arithmetic mean of the two coordinates) are passages afterwards, and every
  other cell is unchanged; the shape of the lattice is unchanged too.
\<close>

theorem connect_effect:
  assumes "well_shaped m" "in_bounds m (x1, y1)" "in_bounds m (x2, y2)"
    and "dist2 (x1, y1) (x2, y2)"
  shows "\<exists>m'. connect m x1 y1 x2 y2 = Inr m' \<and>
           width m' = width m \<and> height m' = height m \<and> well_shaped m' \<and>
           2 * fst (mid (x1, y1) (x2, y2)) = x1 + x2 \<and>
           2 * snd (mid (x1, y1) (x2, y2)) = y1 + y2 \<and>
           passage m' (x1, y1) \<and> passage m' (mid (x1, y1) (x2, y2)) \<and>
           (\<forall>c. c \<noteq> (x1, y1) \<and> c \<noteq> mid (x1, y1) (x2, y2) \<longrightarrow> passage m' c = passage m c)"
proof -
  let ?c = "(x1, y1)" and ?d = "(x2, y2)"
  let ?m' = "carve (carve m ?c) (mid ?c ?d)"
  have ib: "in_bounds m (mid ?c ?d)" using assms(2,3) by (rule in_bounds_mid)
  have "connect m x1 y1 x2 y2 = Inr ?m'"
    using connect_carve [OF assms(1,2) ib] by simp
  moreover have "well_shaped ?m'" using assms(1) by (simp add: well_shaped_carve)
  moreover have "width ?m' = width m" "height ?m' = height m" by simp_all
  moreover have "2 * fst (mid ?c ?d) = x1 + x2" "2 * snd (mid ?c ?d) = y1 + y2"
    using mid_mean [OF assms(4)] by simp_all
  moreover have "passage ?m' ?c" "passage ?m' (mid ?c ?d)"
    by (simp_all add: passage_connect [OF assms(1,2,3)])
  moreover have "\<forall>c. c \<noteq> ?c \<and> c \<noteq> mid ?c ?d \<longrightarrow> passage ?m' c = passage m c"
    using passage_connect [OF assms(1,2,3)] by blast
  ultimately show ?thesis by blast
qed

theorem connect_effect_witness:
  "well_shaped corner_maze \<and> in_bounds corner_maze (0, 2) \<and> in_bounds corner_maze (0, 0) \<and>
   dist2 (0, 2) (0, 0) \<and>
   (\<exists>m'. connect corner_maze 0 2 0 0 = Inr m' \<and>
      width m' = width corner_maze \<and> height m' = height corner_maze \<and> well_shaped m' \<and>
      2 * fst (mid (0, 2) (0, 0)) = (0::int) + 0 \<and>
      2 * snd (mid (0, 2) (0, 0)) = (2::int) + 0 \<and>
      passage m' (0, 2) \<and> passage m' (mid (0, 2) (0, 0)) \<and>
      (\<forall>c. c \<noteq> (0, 2) \<and> c \<noteq> mid (0, 2) (0, 0) \<longrightarrow> passage m' c = passage corner_maze c))"
proof -
  have 1: "well_shaped corner_maze" by (simp add: well_shaped_def corner_maze_def)
  have 2: "in_bounds corner_maze (0, 2)" "in_bounds corner_maze (0, 0)"
    by (simp_all add: in_bounds_def corner_maze_def)
  have 3: "dist2 (0, 2) (0, 0)" by (simp add: dist2_def)
  show ?thesis using 1 2 3 connect_effect [OF 1 2 3] by simp
qed

subsection \<open>C8: the accessor\<close>

lemma np_index_cases:
  assumes "0 < n"
  shows "np_index n i =
    (if - int n \<le> i \<and> i < int n then Inr (nat (i mod int n)) else Inl (index_error i))"
proof -
  have "i mod int n = i + int n" if "- int n \<le> i" "i < 0"
  proof -
    have a: "(i + int n) mod int n = i + int n"
      using that by (intro mod_pos_pos_trivial) simp_all
    have b: "(i + int n) mod int n = i mod int n" by (rule mod_add_self2)
    from b [symmetric] a show ?thesis by (rule trans)
  qed
  then show ?thesis using assms by (auto simp: np_index_def)
qed

text \<open>
  Claim C8 says that the accessor fails for every coordinate outside the lattice, negative
  ones included. The read of the source does not: numpy counts a negative index from the
  end, so on the maze of \<^verbatim>\<open>Maze_Generator(1, 1)\<close> the read at \<open>(-1, -1)\<close> returns the
  state of the cell \<open>(0, 0)\<close>.
\<close>

theorem isPassage_wraps_counterexample:
  "Maze_Generator zero_draws 1 1 = Some (Inr single_cell) \<and>
   isPassage (mz single_cell) (- 1) (- 1) = (Inr True, mz single_cell)"
  by code_simp

text \<open>
  Claim C8, amended. On every completed maze the read \<^verbatim>\<open>maze.grid[x][y]\<close> returns the
  state of the cell \<open>(x, y)\<close> when \<open>0 \<le> x < width\<close> and \<open>0 \<le> y < height\<close>; an index in
  \<open>[-width, 0)\<close> (or \<open>[-height, 0)\<close>) wraps around to the cell \<open>x + width\<close>
  (\<open>y + height\<close>); the read raises exactly when \<open>x\<close> is outside \<open>[-width, width)\<close> or
  \<open>y\<close> outside \<open>[-height, height)\<close>, the first index first: \<^verbatim>\<open>OverflowError\<close> for an
  index in \<open>[2^63, 2^64)\<close>, \<^verbatim>\<open>IndexError\<close> for every other one. In each case the maze
  after the read is the maze before it.
\<close>

theorem isPassage_numpy:
  assumes "Maze_Generator rnd w h = Some (Inr st)"
  shows "isPassage (mz st) x y =
           (if - w \<le> x \<and> x < w
            then if - h \<le> y \<and> y < h
                 then Inr (passage (mz st) (x mod w, y mod h))
                 else Inl (index_error y)
            else Inl (index_error x),
            mz st)"
proof -
  let ?m = "mz st"
  from assms have lh: "loop_head rnd w h st" using Maze_Generator_Some by blast
  then have i: "well_shaped ?m" "1 \<le> w" "1 \<le> h" "width ?m = w" "height ?m = h"
    using loop_head_inv [OF lh] invD(1) by auto
  have l: "length (grid ?m) = nat w" using i by (simp add: well_shaped_def)
  show ?thesis
  proof (cases "- w \<le> x \<and> x < w")
    case False
    then show ?thesis using i l by (auto simp: isPassage_def grid_get_def np_index_cases)
  next
    case True
    then have xb: "0 \<le> x mod w" "x mod w < w" using i by simp_all
    then have r: "length (grid ?m ! nat (x mod w)) = nat h"
      using row_length [OF i(1), of "x mod w"] i by simp
    have 1: "np_index (length (grid ?m)) x = Inr (nat (x mod w))"
      using True i l by (simp add: np_index_cases)
    show ?thesis
    proof (cases "- h \<le> y \<and> y < h")
      case False
      then show ?thesis using i r True by (auto simp: isPassage_def grid_get_def 1 np_index_cases)
    next
      case yt: True
      then have yb: "0 \<le> y mod h" "y mod h < h" using i by simp_all
      have 2: "np_index (length (grid ?m ! nat (x mod w))) y = Inr (nat (y mod h))"
        using yt i r by (simp add: np_index_cases)
      have "in_bounds ?m (x mod w, y mod h)" using xb yb i by (simp add: in_bounds_def)
      then show ?thesis using True yt
        by (simp add: isPassage_def grid_get_def 1 2 passage_def)
    qed
  qed
qed

theorem isPassage_numpy_witness:
  "Maze_Generator zero_draws 1 1 = Some (Inr single_cell) \<and>
   isPassage (mz single_cell) 0 0 = (Inr (passage (mz single_cell) (0, 0)), mz single_cell) \<and>
   isPassage (mz single_cell) (- 1) 0 = (Inr (passage (mz single_cell) (0, 0)), mz single_cell) \<and>
   isPassage (mz single_cell) 1 0 = (Inl IndexError, mz single_cell) \<and>
   isPassage (mz single_cell) 0 (2 ^ 63) = (Inl OverflowError, mz single_cell) \<and>
   isPassage (mz single_cell) (2 ^ 64) 0 = (Inl IndexError, mz single_cell)"
proof -
  have 1: "Maze_Generator zero_draws 1 1 = Some (Inr single_cell)" by code_simp
  show ?thesis
    using 1 isPassage_numpy [OF 1, of 0 0] isPassage_numpy [OF 1, of "- 1" 0]
      isPassage_numpy [OF 1, of 1 0] isPassage_numpy [OF 1, of 0 "2 ^ 63"]
      isPassage_numpy [OF 1, of "2 ^ 64" 0]
    by (simp add: index_error_def)
qed

subsection \<open>C5: dimensions of 0 and 1\<close>

text \<open>
  Claim C5 says that a width or height of 0 or 1 is refused with an
  \<^verbatim>\<open>InvalidDimensions\<close> error before generation starts. The constructor checks nothing:
  \<^verbatim>\<open>Maze_Generator(1, 1)\<close> returns the lattice whose only cell is a passage, and
  \<^verbatim>\<open>Maze_Generator(0, 5)\<close> fails with the \<^verbatim>\<open>IndexError\<close> of the write to the origin.
\<close>

theorem no_dimension_check_counterexample:
  "Maze_Generator zero_draws 1 1 = Some (Inr single_cell) \<and>
   Maze_Generator zero_draws 0 5 = Some (Inl IndexError)"
  by code_simp

text \<open>
  Claim C5, amended. The constructor makes no check of its dimensions. With a width and a
  height of at least 1 (1 included) it returns a maze, and \<^verbatim>\<open>Maze_Generator(1, 1)\<close> returns
  the lattice of one passage cell. With a width or height of 0 (and none negative) the
  array is created and \<^verbatim>\<open>__generate\<close> fails at its write to the origin with
  \<^verbatim>\<open>IndexError\<close>; with a negative width or height \<^verbatim>\<open>np.zeros\<close> fails with
  \<^verbatim>\<open>ValueError\<close>.
\<close>

theorem constructor_dimensions:
  "(1 \<le> w \<and> 1 \<le> h \<longrightarrow> (\<exists>st. Maze_Generator rnd w h = Some (Inr st))) \<and>
   (0 \<le> w \<and> 0 \<le> h \<and> (w = 0 \<or> h = 0) \<longrightarrow>
      (\<exists>g. np_zeros w h = Inr g \<and>
        generate_init \<lparr>width = w, height = h, grid = g\<rparr> = Inl IndexError) \<and>
      Maze_Generator rnd w h = Some (Inl IndexError)) \<and>
   (w < 0 \<or> h < 0 \<longrightarrow> Maze_Generator rnd w h = Some (Inl ValueError)) \<and>
   Maze_Generator rnd 1 1 = Some (Inr single_cell)"
proof -
  have 1: "\<exists>st. Maze_Generator rnd w h = Some (Inr st)" if "1 \<le> w" "1 \<le> h"
    using Maze_Generator_result [OF that, of rnd] by blast
  have 2: "\<exists>g. np_zeros w h = Inr g \<and>
             generate_init \<lparr>width = w, height = h, grid = g\<rparr> = Inl IndexError"
    if "0 \<le> w" "0 \<le> h" "w = 0 \<or> h = 0"
    using that by (simp add: np_zeros_blank blank_eq generate_init_empty)
  have 3: "Maze_Generator rnd w h = Some (Inl IndexError)"
    if "0 \<le> w" "0 \<le> h" "w = 0 \<or> h = 0"
    using that Maze_Generator_fails [of w h rnd] by auto
  have 4: "Maze_Generator rnd w h = Some (Inl ValueError)" if "w < 0 \<or> h < 0"
    using that Maze_Generator_fails [of w h rnd] by auto
  have "first_state 1 1 = single_cell"
    by (simp add: first_state_def single_cell_def blank_def carve_def pick_def ins_if_def
        wall_def in_bounds_def)
  then have 5: "Maze_Generator rnd 1 1 = Some (Inr single_cell)"
    by (simp add: Maze_Generator_loop generate_loop_done single_cell_def)
  show ?thesis using 1 2 3 4 5 by blast
qed

theorem constructor_dimensions_witness:
  "(\<exists>st. Maze_Generator zero_draws 1 5 = Some (Inr st)) \<and>
   (\<exists>g. np_zeros 0 5 = Inr g \<and>
      generate_init \<lparr>width = 0, height = 5, grid = g\<rparr> = Inl IndexError) \<and>
   Maze_Generator zero_draws 0 5 = Some (Inl IndexError) \<and>
   Maze_Generator zero_draws (- 1) 5 = Some (Inl ValueError)"
  using constructor_dimensions [of 1 5 zero_draws] constructor_dimensions [of 0 5 zero_draws]
    constructor_dimensions [of "- 1" 5 zero_draws]
  by simp

subsection \<open>C4: a popped cell without a passage neighbour\<close>

lemma popped_choice:
  assumes "loop_head rnd w h st" "work st \<noteq> []"
  shows "choice rnd (draws st) (work st) = Inr (popped rnd st)"
    "neighbours (mz st) (fst (popped rnd st)) (snd (popped rnd st)) =
       Inr (pick (passage (mz st)) (fst (popped rnd st)) (snd (popped rnd st)))"
    "pick (passage (mz st)) (fst (popped rnd st)) (snd (popped rnd st)) \<noteq> []"
proof -
  from assms(1) have i: "loop_inv st" using loop_head_inv by blast
  note pf = pop_facts [OF invD(3) [OF i] assms(2), of rnd]
  show "choice rnd (draws st) (work st) = Inr (popped rnd st)"
    using assms(2) by (simp add: choice_def popped_def)
  from pf(2) have "in_bounds (mz st) (fst (popped rnd st), snd (popped rnd st))"
    by (simp add: wall_def)
  then show "neighbours (mz st) (fst (popped rnd st)) (snd (popped rnd st)) =
       Inr (pick (passage (mz st)) (fst (popped rnd st)) (snd (popped rnd st)))"
    using invD(1) [OF i] by (rule neighbours_pick [rotated])
  show "pick (passage (mz st)) (fst (popped rnd st)) (snd (popped rnd st)) \<noteq> []"
    by (rule pf(3))
qed

text \<open>
  Claim C4 says that for some width, height and draws a cell popped from the working set
  has no passage neighbour at distance 2 when it is processed. No run has such a pop:
  at no head of the loop does the chosen cell have an empty set of neighbours.
\<close>

theorem no_orphan_pop_counterexample:
  "\<not> (\<exists>rnd w h st x y. loop_head rnd w h st \<and> work st \<noteq> [] \<and>
         choice rnd (draws st) (work st) = Inr (x, y) \<and> neighbours (mz st) x y = Inr [])"
proof
  assume "\<exists>rnd w h st x y. loop_head rnd w h st \<and> work st \<noteq> [] \<and>
         choice rnd (draws st) (work st) = Inr (x, y) \<and> neighbours (mz st) x y = Inr []"
  then obtain rnd w h st x y where a: "loop_head rnd w h st" "work st \<noteq> []"
    "choice rnd (draws st) (work st) = Inr (x, y)" "neighbours (mz st) x y = Inr []"
    by blast
  from a(3) popped_choice(1) [OF a(1,2)] have "popped rnd st = (x, y)" by simp
  with popped_choice(2,3) [OF a(1,2)] a(4) show False by simp
qed

text \<open>
  Claim C4, amended. For every width, height and sequence of draws, every cell popped
  from the working set has, at the moment it is processed, at least one passage neighbour
  at distance 2: the iteration calls \<^verbatim>\<open>__connect\<close>, the popped cell was a wall and is a
  passage afterwards. The branch of the loop that would drop a cell uncarved is never
  taken.
\<close>

theorem popped_has_neighbour:
  assumes "loop_head rnd w h st" "work st \<noteq> []"
  shows "\<exists>x y ns st'. choice rnd (draws st) (work st) = Inr (x, y) \<and>
           neighbours (mz st) x y = Inr ns \<and> ns \<noteq> [] \<and>
           loop_body rnd st = Inr st' \<and> loop_head rnd w h st' \<and>
           \<not> passage (mz st) (x, y) \<and> passage (mz st') (x, y) \<and>
           connects st' = Suc (connects st)"
proof -
  from assms(1) have i: "loop_inv st" using loop_head_inv by blast
  note pf = pop_facts [OF invD(3) [OF i] assms(2), of rnd]
  note pc = passage_carved [OF invD(1) [OF i] invD(3) [OF i] assms(2), of rnd]
  let ?c = "popped rnd st" and ?st' = "next_state rnd st"
  have "choice rnd (draws st) (work st) = Inr (fst ?c, snd ?c)"
    using popped_choice(1) [OF assms] by simp
  moreover note popped_choice(2,3) [OF assms]
  moreover have "loop_body rnd st = Inr ?st'" using i assms(2) by (rule loop_body_inv)
  moreover have "loop_head rnd w h ?st'" using assms by (rule loop_head_next)
  moreover have "\<not> passage (mz st) (fst ?c, snd ?c)" using pf(2) by (simp add: wall_def)
  moreover have "passage (mz ?st') (fst ?c, snd ?c)" by (simp add: next_state_def pc)
  moreover have "connects ?st' = Suc (connects st)" by (simp add: next_state_def)
  ultimately show ?thesis by blast
qed

theorem popped_has_neighbour_witness:
  "loop_head zero_draws 3 3 (first_state 3 3) \<and> work (first_state 3 3) \<noteq> [] \<and>
   (\<exists>x y ns st'. choice zero_draws (draws (first_state 3 3)) (work (first_state 3 3)) = Inr (x, y) \<and>
      neighbours (mz (first_state 3 3)) x y = Inr ns \<and> ns \<noteq> [] \<and>
      loop_body zero_draws (first_state 3 3) = Inr st' \<and> loop_head zero_draws 3 3 st' \<and>
      \<not> passage (mz (first_state 3 3)) (x, y) \<and> passage (mz st') (x, y) \<and>
      connects st' = Suc (connects (first_state 3 3)))"
proof -
  have 1: "loop_head zero_draws 3 3 (first_state 3 3)" by (simp add: loop_head_first)
  have 2: "work (first_state 3 3) \<noteq> []" by code_simp
  show ?thesis using 1 2 popped_has_neighbour [OF 1 2] by simp
qed

subsection \<open>C2: the spanning tree\<close>

lemma mid_ends_of: "mid (fst (ends_of c)) (snd (ends_of c)) = c"
proof -
  have a: "(fst c - 1 + (fst c + 1)) div 2 = fst c" "(snd c - 1 + (snd c + 1)) div 2 = snd c"
    "(fst c + fst c) div 2 = fst c" "(snd c + snd c) div 2 = snd c"
    by presburger+
  show ?thesis
    by (cases "odd (fst c)")
      (simp_all only: ends_of_def mid_def if_True if_False fst_conv snd_conv a prod.collapse simp_thms)
qed

lemma edges_image:
  assumes "loop_inv st"
  shows "edges (mz st) = ends_of ` {c. passage (mz st) c \<and> \<not> node c}"
proof (intro set_eqI iffI)
  fix e assume "e \<in> edges (mz st)"
  then obtain a b where e: "e = (a, b)" "passage (mz st) a" "node a" "passage (mz st) b"
    "b = (fst a + 2, snd a) \<or> b = (fst a, snd a + 2)" "passage (mz st) (mid a b)"
    by (auto simp: edges_def)
  from e(5) have d: "dist2 a b" by (auto simp: dist2_def)
  then have "\<not> node (mid a b)" using e(3) by (rule mid_not_node)
  moreover have "ends_of (mid a b) = (a, b)"
    using e(5) e(3) by (cases a) (auto simp: ends_of_def mid_simps node_def)
  ultimately show "e \<in> ends_of ` {c. passage (mz st) c \<and> \<not> node c}"
    using e(1,6) by (intro image_eqI [of _ _ "mid a b"]) simp_all
next
  fix e assume "e \<in> ends_of ` {c. passage (mz st) c \<and> \<not> node c}"
  then obtain c where c: "e = ends_of c" "passage (mz st) c" "\<not> node c" by blast
  with invD(4) [OF assms c(2)] have l: "link_ok (mz st) c" by simp
  have "ends_of c \<in> edges (mz st)"
    using l c(2) mid_ends_of [of c]
    by (cases c) (auto simp: link_ok_def edges_def ends_of_def node_def)
  with c(1) show "e \<in> edges (mz st)" by simp
qed

lemma card_edges:
  assumes "loop_inv st"
  shows "card (edges (mz st)) = connects st"
proof -
  have "inj_on ends_of {c. passage (mz st) c \<and> \<not> node c}"
    by (rule inj_on_inverseI [of _ "\<lambda>e. mid (fst e) (snd e)"]) (simp add: mid_ends_of)
  then have "card (ends_of ` {c. passage (mz st) c \<and> \<not> node c}) = connects st"
    using invD(8) [OF assms] by (simp add: card_image)
  then show ?thesis by (simp add: edges_image [OF assms])
qed

lemma mid_inj:
  assumes "dist2 c n" "dist2 c n'" "mid c n = mid c n'"
  shows "n = n'"
  using assms by (elim dist2_cases) (auto simp: mid_simps)

lemma links_next:
  assumes i: "loop_inv st" and ne: "work st \<noteq> []"
  shows "links (mz (next_state rnd st)) (popped rnd st) = {chosen rnd st}"
proof -
  let ?m = "mz st" and ?c = "popped rnd st" and ?n = "chosen rnd st"
  note ws = invD(1) [OF i] and wo = invD(3) [OF i]
  note pf = pop_facts [OF wo ne, of rnd]
  note pc = passage_carved [OF ws wo ne, of rnd]
  have mz': "mz (next_state rnd st) = carved rnd st" by (simp add: next_state_def)
  have "n = ?n" if n: "dist2 ?c n" "passage (carved rnd st) (mid ?c n)" for n
  proof -
    have nn: "\<not> node (mid ?c n)" using n(1) pf(1) by (rule mid_not_node)
    have "\<not> passage ?m (mid ?c n)"
    proof
      assume "passage ?m (mid ?c n)"
      with invD(4) [OF i] nn have "link_ok ?m (mid ?c n)" by blast
      with n(1) pf(1) have "passage ?m ?c" by (rule link_ends)
      with pf(2) show False by (simp add: wall_def)
    qed
    moreover from nn pf(1) have "mid ?c n \<noteq> ?c" by auto
    ultimately have "mid ?c n = mid ?c ?n" using n(2) by (simp add: pc)
    with n(1) pf(4) show ?thesis by (rule mid_inj)
  qed
  moreover have "dist2 ?c ?n" "passage (carved rnd st) ?n" "passage (carved rnd st) (mid ?c ?n)"
    using pf(4,5) by (simp_all add: pc)
  ultimately show ?thesis unfolding links_def mz' by blast
qed

lemma card_passages:
  assumes "loop_inv st"
  shows "card {c. passage (mz st) c} = 2 * connects st + 1"
proof -
  let ?N = "{c. passage (mz st) c \<and> node c}" and ?E = "{c. passage (mz st) c \<and> \<not> node c}"
  have "{c. passage (mz st) c} = ?N \<union> ?E" by blast
  moreover have "?N \<inter> ?E = {}" by blast
  moreover have "finite ?N" "finite ?E" by (rule finite_passages)+
  ultimately have "card {c. passage (mz st) c} = card ?N + card ?E"
    by (simp only: card_Un_disjoint)
  then show ?thesis using invD(7,8) [OF assms] by simp
qed

text \<open>
  The working set stays complete, so when it is empty every cell of the lattice with two
  even coordinates has been carved: from the origin along the first row, then along each
  column.
\<close>

lemma frontier_complete_first:
  assumes "1 \<le> w" "1 \<le> h"
  shows "frontier_complete (first_state w h)"
  unfolding frontier_complete_def
proof (intro allI impI)
  fix n c
  assume a: "passage (mz (first_state w h)) n \<and> node n \<and> dist2 n c \<and> wall (mz (first_state w h)) c"
  then have "n = (0, 0)" by (simp add: passage_first [OF assms])
  with a have "dist2 (0, 0) c" "wall (carve (blank w h) (0, 0)) c"
    by (simp_all add: first_state_def)
  then show "c \<in> set (work (first_state w h))"
    by (simp add: first_state_def List.union_def [symmetric] set_pick)
qed

lemma frontier_complete_next:
  assumes i: "loop_inv st" and ne: "work st \<noteq> []" and fc: "frontier_complete st"
  shows "frontier_complete (next_state rnd st)"
  unfolding frontier_complete_def
proof (intro allI impI)
  let ?m = "mz st" and ?m' = "carved rnd st"
  let ?c = "popped rnd st" and ?n = "chosen rnd st"
  note ws = invD(1) [OF i] and wo = invD(3) [OF i]
  note pf = pop_facts [OF wo ne, of rnd]
  note pc = passage_carved [OF ws wo ne, of rnd]
  have mz': "mz (next_state rnd st) = ?m'" by (simp add: next_state_def)
  fix n c
  assume "passage (mz (next_state rnd st)) n \<and> node n \<and> dist2 n c \<and>
          wall (mz (next_state rnd st)) c"
  then have a: "passage ?m' n" "node n" "dist2 n c" "wall ?m' c" by (simp_all add: mz')
  have nmid: "\<not> node (mid ?c ?n)" using pf(4) pf(1) by (rule mid_not_node)
  from a(1,2) nmid consider "n = ?c" | "passage ?m n" by (auto simp: pc)
  then show "c \<in> set (work (next_state rnd st))"
  proof cases
    case 1
    with a(3,4) show ?thesis by (simp add: set_work_next)
  next
    case 2
    from a(4) have w: "wall ?m c" "c \<noteq> ?c"
      using carved_shape(2) [OF ws, of rnd c] by (auto simp: wall_def pc)
    with fc 2 a(2,3) have "c \<in> set (work st)" unfolding frontier_complete_def by blast
    with w(2) show ?thesis by (simp add: set_work_next)
  qed
qed

lemma loop_head_complete:
  assumes "loop_head rnd w h st"
  shows "frontier_complete st"
  using assms
proof induction
  case (loop_start g st)
  then have "1 \<le> w \<and> 1 \<le> h \<and> st = first_state w h" by (rule loop_start_dims)
  then show ?case by (simp add: frontier_complete_first)
next
  case (loop_iter st st')
  from loop_iter(1) have i: "loop_inv st" using loop_head_inv by blast
  with loop_iter have "st' = next_state rnd st" using loop_body_inv [of st rnd] by simp
  with i loop_iter show ?case by (simp add: frontier_complete_next)
qed

lemma spread:
  assumes "frontier_complete st" "work st = []"
    and "passage (mz st) n" "node n" "dist2 n c" "in_bounds (mz st) c"
  shows "passage (mz st) c"
proof (rule ccontr)
  assume "\<not> passage (mz st) c"
  with assms(6) have "wall (mz st) c" by (simp add: wall_def)
  with assms(1,3,4,5) have "c \<in> set (work st)" unfolding frontier_complete_def by blast
  with assms(2) show False by simp
qed

lemma row_carved:
  assumes "frontier_complete st" "work st = []" "passage (mz st) (0, 0)"
  shows "in_bounds (mz st) (2 * int i, 0) \<Longrightarrow> passage (mz st) (2 * int i, 0)"
proof (induction i)
  case 0
  then show ?case using assms(3) by simp
next
  case (Suc i)
  then have "in_bounds (mz st) (2 * int i, 0)" by (simp add: in_bounds_def)
  then have p: "passage (mz st) (2 * int i, 0)" by (rule Suc.IH)
  have "node (2 * int i, 0)" by (simp add: node_def)
  moreover have "dist2 (2 * int i, 0) (2 * int (Suc i), 0)" by (simp add: dist2_def)
  ultimately show ?case using spread [OF assms(1,2) p] Suc.prems by blast
qed

lemma column_carved:
  assumes "frontier_complete st" "work st = []" "passage (mz st) (0, 0)"
  shows "in_bounds (mz st) (2 * int i, 2 * int j) \<Longrightarrow> passage (mz st) (2 * int i, 2 * int j)"
proof (induction j)
  case 0
  then show ?case using row_carved [OF assms, of i] by simp
next
  case (Suc j)
  then have "in_bounds (mz st) (2 * int i, 2 * int j)" by (simp add: in_bounds_def)
  then have p: "passage (mz st) (2 * int i, 2 * int j)" by (rule Suc.IH)
  have "node (2 * int i, 2 * int j)" by (simp add: node_def)
  moreover have "dist2 (2 * int i, 2 * int j) (2 * int i, 2 * int (Suc j))" by (simp add: dist2_def)
  ultimately show ?case using spread [OF assms(1,2) p] Suc.prems by blast
qed

lemma all_nodes_carved:
  assumes "frontier_complete st" "work st = []" "passage (mz st) (0, 0)"
    and "in_bounds (mz st) c" "node c"
  shows "passage (mz st) c"
proof -
  from assms(4,5) have "fst c = 2 * int (nat (fst c div 2))" "snd c = 2 * int (nat (snd c div 2))"
    by (auto simp: in_bounds_def node_def)
  then have "c = (2 * int (nat (fst c div 2)), 2 * int (nat (snd c div 2)))"
    by (metis prod.collapse)
  with column_carved [OF assms(1,2,3), of "nat (fst c div 2)" "nat (snd c div 2)"] assms(4)
  show ?thesis by metis
qed


lemma nodes_lattice:
  assumes "loop_inv st" "frontier_complete st" "work st = []"
    and "width (mz st) = w" "height (mz st) = h"
  shows "nodes (mz st) =
    {c. 0 \<le> fst c \<and> fst c < w \<and> 0 \<le> snd c \<and> snd c < h \<and> even (fst c) \<and> even (snd c)}"
proof -
  have "passage (mz st) c" if "in_bounds (mz st) c" "node c" for c
    using assms(2,3) invD(2) [OF assms(1)] that by (rule all_nodes_carved)
  then have "nodes (mz st) = {c. in_bounds (mz st) c \<and> node c}"
    by (auto simp: nodes_def passage_def)
  then show ?thesis using assms(4,5) by (simp add: in_bounds_def node_def conj_ac)
qed

text \<open>
  Claim C2. For every width and height of at least 1 and every sequence of draws, the
  carved passages form a spanning tree of the distance-2 graph of the lattice. The maze
  returned has the given width and height; its nodes are all the cells of the lattice with
  two even coordinates (spanning); every node is reachable from the origin along edges
  (connected); the number of edges is the number of nodes minus one (hence a tree). The
  number of nodes is the number of pops that found a neighbour plus one (the origin),
  every pop found a neighbour, and with the midpoints the lattice has \<open>2 * connects + 1\<close>
  passages. At every iteration the popped cell is connected to exactly one neighbour: one
  node and one edge are added, and right after the step the popped cell is linked to one
  node only.
\<close>

theorem spanning_tree:
  assumes "1 \<le> w" "1 \<le> h"
  shows "\<exists>st. Maze_Generator rnd w h = Some (Inr st) \<and>
           width (mz st) = w \<and> height (mz st) = h \<and> well_shaped (mz st) \<and>
           nodes (mz st) =
             {c. 0 \<le> fst c \<and> fst c < w \<and> 0 \<le> snd c \<and> snd c < h \<and>
                 even (fst c) \<and> even (snd c)} \<and>
           (\<forall>c. c \<in> nodes (mz st) \<longrightarrow> reach2 (mz st) c) \<and>
           card (nodes (mz st)) = connects st + 1 \<and>
           card (edges (mz st)) = card (nodes (mz st)) - 1 \<and>
           card {c. passage (mz st) c} = 2 * connects st + 1 \<and>
           pops st = connects st \<and>
           (\<forall>s. loop_head rnd w h s \<and> work s \<noteq> [] \<longrightarrow>
              (\<exists>s' c n. loop_body rnd s = Inr s' \<and>
                 choice rnd (draws s) (work s) = Inr c \<and>
                 connects s' = connects s + 1 \<and>
                 card (nodes (mz s')) = card (nodes (mz s)) + 1 \<and>
                 card (edges (mz s')) = card (edges (mz s)) + 1 \<and>
                 links (mz s') c = {n}))"
proof -
  obtain st where st: "Maze_Generator rnd w h = Some (Inr st)" "loop_inv st" "work st = []"
    "width (mz st) = w" "height (mz st) = h" "loop_head rnd w h st"
    using assms by (rule final_inv)
  have fc: "frontier_complete st" using st(6) by (rule loop_head_complete)
  have ws: "well_shaped (mz st)" by (rule invD(1) [OF st(2)])
  have sp: "nodes (mz st) =
     {c. 0 \<le> fst c \<and> fst c < w \<and> 0 \<le> snd c \<and> snd c < h \<and> even (fst c) \<and> even (snd c)}"
    using st(2) fc st(3,4,5) by (rule nodes_lattice)
  have cn: "\<forall>c. c \<in> nodes (mz st) \<longrightarrow> reach2 (mz st) c"
    using invD(6) [OF st(2)] by (simp add: nodes_def)
  have a: "card (nodes (mz st)) = connects st + 1"
    using invD(7) [OF st(2)] by (simp add: nodes_def)
  have b: "card (edges (mz st)) = card (nodes (mz st)) - 1"
    using card_edges [OF st(2)] a by simp
  have c: "pops st = connects st" by (rule invD(9) [OF st(2)])
  have e: "card {c. passage (mz st) c} = 2 * connects st + 1" by (rule card_passages [OF st(2)])
  have d: "\<forall>s. loop_head rnd w h s \<and> work s \<noteq> [] \<longrightarrow>
              (\<exists>s' c n. loop_body rnd s = Inr s' \<and>
                 choice rnd (draws s) (work s) = Inr c \<and>
                 connects s' = connects s + 1 \<and>
                 card (nodes (mz s')) = card (nodes (mz s)) + 1 \<and>
                 card (edges (mz s')) = card (edges (mz s)) + 1 \<and>
                 links (mz s') c = {n})"
  proof (intro allI impI)
    fix s assume "loop_head rnd w h s \<and> work s \<noteq> []"
    then have s: "loop_head rnd w h s" "work s \<noteq> []" by simp_all
    from s(1) have i: "loop_inv s" using loop_head_inv by blast
    then have i': "loop_inv (next_state rnd s)" using s(2) by (rule inv_next)
    have cn: "connects (next_state rnd s) = connects s + 1" by (simp add: next_state_def)
    have "loop_body rnd s = Inr (next_state rnd s)" using i s(2) by (rule loop_body_inv)
    moreover have "choice rnd (draws s) (work s) = Inr (popped rnd s)"
      using s(2) by (simp add: choice_def popped_def)
    moreover have "card (nodes (mz (next_state rnd s))) = card (nodes (mz s)) + 1"
      using invD(7) [OF i] invD(7) [OF i'] cn by (simp add: nodes_def)
    moreover have "card (edges (mz (next_state rnd s))) = card (edges (mz s)) + 1"
      using card_edges [OF i] card_edges [OF i'] cn by simp
    moreover note cn links_next [OF i s(2), of rnd]
    ultimately show "\<exists>s' c n. loop_body rnd s = Inr s' \<and>
                 choice rnd (draws s) (work s) = Inr c \<and>
                 connects s' = connects s + 1 \<and>
                 card (nodes (mz s')) = card (nodes (mz s)) + 1 \<and>
                 card (edges (mz s')) = card (edges (mz s)) + 1 \<and>
                 links (mz s') c = {n}"
      by blast
  qed
  show ?thesis
    by (intro exI [of _ st] conjI st(1) st(4) st(5) ws sp cn a b e c d)
qed

theorem spanning_tree_witness:
  "(1::int) \<le> 3 \<and> loop_head zero_draws 3 3 (first_state 3 3) \<and>
   work (first_state 3 3) \<noteq> [] \<and>
   Maze_Generator zero_draws 3 3 = Some (Inr three_by_three) \<and>
   width (mz three_by_three) = 3 \<and> height (mz three_by_three) = 3 \<and>
   well_shaped (mz three_by_three) \<and>
   nodes (mz three_by_three) =
     {c. 0 \<le> fst c \<and> fst c < 3 \<and> 0 \<le> snd c \<and> snd c < 3 \<and> even (fst c) \<and> even (snd c)} \<and>
   (2, 2) \<in> nodes (mz three_by_three) \<and> reach2 (mz three_by_three) (2, 2) \<and>
   card (nodes (mz three_by_three)) = connects three_by_three + 1 \<and>
   card (edges (mz three_by_three)) = card (nodes (mz three_by_three)) - 1 \<and>
   card {c. passage (mz three_by_three) c} = 2 * connects three_by_three + 1 \<and>
   pops three_by_three = connects three_by_three \<and>
   (\<exists>s' c n. loop_body zero_draws (first_state 3 3) = Inr s' \<and>
      choice zero_draws (draws (first_state 3 3)) (work (first_state 3 3)) = Inr c \<and>
      connects s' = connects (first_state 3 3) + 1 \<and>
      card (nodes (mz s')) = card (nodes (mz (first_state 3 3))) + 1 \<and>
      card (edges (mz s')) = card (edges (mz (first_state 3 3))) + 1 \<and>
      links (mz s') c = {n})"
proof -
  have 1: "(1::int) \<le> 3" by simp
  have 2: "loop_head zero_draws 3 3 (first_state 3 3)" by (simp add: loop_head_first)
  have 3: "work (first_state 3 3) \<noteq> []" by code_simp
  have 4: "Maze_Generator zero_draws 3 3 = Some (Inr three_by_three)" by code_simp
  from spanning_tree [OF 1 1, of zero_draws] obtain st where
    st: "Maze_Generator zero_draws 3 3 = Some (Inr st)" and
    r: "width (mz st) = 3 \<and> height (mz st) = 3 \<and> well_shaped (mz st) \<and>
     nodes (mz st) =
       {c. 0 \<le> fst c \<and> fst c < 3 \<and> 0 \<le> snd c \<and> snd c < 3 \<and> even (fst c) \<and> even (snd c)} \<and>
     (\<forall>c. c \<in> nodes (mz st) \<longrightarrow> reach2 (mz st) c) \<and>
     card (nodes (mz st)) = connects st + 1 \<and>
     card (edges (mz st)) = card (nodes (mz st)) - 1 \<and>
     card {c. passage (mz st) c} = 2 * connects st + 1 \<and>
     pops st = connects st \<and>
     (\<forall>s. loop_head zero_draws 3 3 s \<and> work s \<noteq> [] \<longrightarrow>
        (\<exists>s' c n. loop_body zero_draws s = Inr s' \<and>
           choice zero_draws (draws s) (work s) = Inr c \<and>
           connects s' = connects s + 1 \<and>
           card (nodes (mz s')) = card (nodes (mz s)) + 1 \<and>
           card (edges (mz s')) = card (edges (mz s)) + 1 \<and>
           links (mz s') c = {n}))"
    by (elim exE conjE) (rule that, assumption, intro conjI, assumption+)
  from st 4 have eq: "st = three_by_three" by simp
  note c1 = r [unfolded eq, THEN conjunct1] and t1 = r [unfolded eq, THEN conjunct2]
  note c2 = t1 [THEN conjunct1] and t2 = t1 [THEN conjunct2]
  note c3 = t2 [THEN conjunct1] and t3 = t2 [THEN conjunct2]
  note c4 = t3 [THEN conjunct1] and t4 = t3 [THEN conjunct2]
  note c5 = t4 [THEN conjunct1] and t5 = t4 [THEN conjunct2]
  note c6 = t5 [THEN conjunct1] and t6 = t5 [THEN conjunct2]
  note c7 = t6 [THEN conjunct1] and t7 = t6 [THEN conjunct2]
  note c8 = t7 [THEN conjunct1] and t8 = t7 [THEN conjunct2]
  note c9 = t8 [THEN conjunct1] and c10 = t8 [THEN conjunct2]
  have 5: "(2, 2) \<in> nodes (mz three_by_three)" by (simp add: c4)
  have 6: "reach2 (mz three_by_three) (2, 2)" using c5 [THEN spec, THEN mp, OF 5] .
  note s = c10 [THEN spec, THEN mp, OF conjI [OF 2 3]]
  show ?thesis by (intro conjI 1 2 3 4 c1 c2 c3 c4 5 6 c6 c7 c8 c9 s)
qed

subsection \<open>C9: determinism\<close>

text \<open>
  Claim C9 says that the lattice is determined by width, height and a seed given to the
  constructor. The constructor takes a width and a height only and draws from the ambient
  generator: two constructions with the same width and height give different lattices
  when the draws differ.
\<close>

theorem same_dimensions_differ_counterexample:
  "grid_of (Maze_Generator zero_draws 3 3) =
     Some [[True, True, True], [True, False, False], [True, True, True]] \<and>
   grid_of (Maze_Generator one_draws 3 3) =
     Some [[True, True, True], [True, False, True], [True, False, True]] \<and>
   grid_of (Maze_Generator zero_draws 3 3) \<noteq> grid_of (Maze_Generator one_draws 3 3)"
  by code_simp

lemma next_state_cong:
  assumes "rnd' (draws st) = rnd (draws st)" "rnd' (Suc (draws st)) = rnd (Suc (draws st))"
  shows "next_state rnd' st = next_state rnd st"
  using assms by (simp add: next_state_def carved_def popped_def chosen_def)

lemma loop_agree:
  assumes "loop_inv st"
  shows "\<exists>st'. generate_loop rnd st = Some (Inr st') \<and>
           (draws st \<le> draws st' \<and>
            (\<forall>rnd'. (\<forall>k. draws st \<le> k \<and> k < draws st' \<longrightarrow> rnd' k = rnd k) \<longrightarrow>
               generate_loop rnd' st = Some (Inr st')))"
  using assms
proof (rule loop_induct)
  fix st :: gstate assume "work st = []"
  then show "draws st \<le> draws st \<and>
            (\<forall>rnd'. (\<forall>k. draws st \<le> k \<and> k < draws st \<longrightarrow> rnd' k = rnd k) \<longrightarrow>
               generate_loop rnd' st = Some (Inr st))"
    by (simp add: generate_loop_done)
next
  fix st st' :: gstate
  let ?st1 = "next_state rnd st"
  assume i: "loop_inv st" and ne: "work st \<noteq> []"
    and ih: "draws ?st1 \<le> draws st' \<and>
            (\<forall>rnd'. (\<forall>k. draws ?st1 \<le> k \<and> k < draws st' \<longrightarrow> rnd' k = rnd k) \<longrightarrow>
               generate_loop rnd' ?st1 = Some (Inr st'))"
  have d1: "draws ?st1 = Suc (Suc (draws st))" by (simp add: next_state_def)
  have "generate_loop rnd' st = Some (Inr st')"
    if ag: "\<forall>k. draws st \<le> k \<and> k < draws st' \<longrightarrow> rnd' k = rnd k" for rnd'
  proof -
    from ag ih d1 have "rnd' (draws st) = rnd (draws st)" "rnd' (Suc (draws st)) = rnd (Suc (draws st))"
      by simp_all
    then have "next_state rnd' st = ?st1" by (rule next_state_cong)
    then have "generate_loop rnd' st = generate_loop rnd' ?st1"
      using generate_loop_iter [OF ne loop_body_inv [OF i ne, of rnd']] by simp
    moreover have "generate_loop rnd' ?st1 = Some (Inr st')"
      using ih ag d1 by simp
    ultimately show ?thesis by simp
  qed
  then show "draws st \<le> draws st' \<and>
            (\<forall>rnd'. (\<forall>k. draws st \<le> k \<and> k < draws st' \<longrightarrow> rnd' k = rnd k) \<longrightarrow>
               generate_loop rnd' st = Some (Inr st'))"
    using ih d1 by simp
qed

text \<open>
  Claim C9, amended. The generated lattice (with the counters of its generation) is a
  function of the width, the height and the values drawn from the ambient generator
  during generation: two constructions with the same width and height whose draws agree
  on the calls of \<^verbatim>\<open>random.choice\<close> that the first one makes return the same lattice.
\<close>

theorem draws_determine_maze:
  assumes "Maze_Generator rnd w h = Some (Inr st)" "\<forall>k. k < draws st \<longrightarrow> rnd' k = rnd k"
  shows "Maze_Generator rnd' w h = Some (Inr st)"
proof (cases "1 \<le> w \<and> 1 \<le> h")
  case False
  then show ?thesis using Maze_Generator_fails [of w h rnd] assms(1) by simp
next
  case True
  then have wh: "1 \<le> w" "1 \<le> h" by simp_all
  from assms(1) have g: "generate_loop rnd (first_state w h) = Some (Inr st)"
    by (simp add: Maze_Generator_loop [OF wh])
  from loop_agree [OF inv_first [OF wh], of rnd] g assms(2)
  have "generate_loop rnd' (first_state w h) = Some (Inr st)" by auto
  then show ?thesis by (simp add: Maze_Generator_loop [OF wh])
qed

theorem draws_determine_maze_witness:
  "Maze_Generator zero_draws 3 3 = Some (Inr three_by_three) \<and>
   (\<forall>k. late_draws k = zero_draws k \<or> 6 \<le> k) \<and>
   Maze_Generator late_draws 3 3 = Some (Inr three_by_three)"
proof -
  have 1: "Maze_Generator zero_draws 3 3 = Some (Inr three_by_three)" by code_simp
  have 2: "\<forall>k. k < draws three_by_three \<longrightarrow> late_draws k = zero_draws k"
    by (simp add: three_by_three_def late_draws_def zero_draws_def)
  have 3: "\<forall>k. late_draws k = zero_draws k \<or> 6 \<le> k"
    by (simp add: late_draws_def zero_draws_def)
  have 4: "Maze_Generator late_draws 3 3 = Some (Inr three_by_three)"
    using 1 2 by (rule draws_determine_maze)
  show ?thesis by (intro conjI 1 3 4)
qed

subsection \<open>C10: parity\<close>

lemma work_even:
  assumes "loop_inv st" "c \<in> set (work st)"
  shows "even (fst c) \<and> even (snd c)"
  using invD(3) [OF assms(1)] assms(2) by (auto simp: work_ok_def node_def)

lemma passage_parity:
  assumes "loop_inv st" "passage (mz st) c"
  shows "\<not> (odd (fst c) \<and> odd (snd c))"
  using invD(4) [OF assms] by (auto simp: node_def link_ok_def)

lemma mid_one_odd:
  assumes "dist2 c n" "node c"
  shows "odd (fst (mid c n)) \<noteq> odd (snd (mid c n))"
  using assms by (elim dist2_cases) (simp_all add: mid_simps node_def)

text \<open>
  Claim C10. At every head of the loop of a run, every coordinate in the working set has
  two even coordinates and no passage has two odd coordinates; an iteration carves the
  popped cell, whose coordinates are both even, and one midpoint, which has exactly one
  odd coordinate, and nothing else. The origin, carved first, is \<open>(0, 0)\<close>. Hence in every
  generated maze every cell with two odd coordinates is a wall.
\<close>

theorem parity_invariant:
  "(loop_head rnd w h st \<longrightarrow>
      (\<forall>c\<in>set (work st). even (fst c) \<and> even (snd c)) \<and>
      (\<forall>c. passage (mz st) c \<longrightarrow> \<not> (odd (fst c) \<and> odd (snd c))) \<and>
      (work st \<noteq> [] \<longrightarrow>
         (\<exists>st' c n. loop_body rnd st = Inr st' \<and>
            choice rnd (draws st) (work st) = Inr c \<and>
            even (fst c) \<and> even (snd c) \<and>
            odd (fst (mid c n)) \<noteq> odd (snd (mid c n)) \<and>
            (\<forall>d. passage (mz st') d = (d = c \<or> d = mid c n \<or> passage (mz st) d))))) \<and>
   (Maze_Generator rnd w h = Some (Inr st) \<longrightarrow>
      passage (mz st) (0, 0) \<and>
      (\<forall>c. odd (fst c) \<and> odd (snd c) \<longrightarrow> \<not> passage (mz st) c))"
proof (intro conjI impI)
  assume lh: "loop_head rnd w h st"
  then have i: "loop_inv st" using loop_head_inv by blast
  show "\<forall>c\<in>set (work st). even (fst c) \<and> even (snd c)"
    using work_even [OF i] by blast
  show "\<forall>c. passage (mz st) c \<longrightarrow> \<not> (odd (fst c) \<and> odd (snd c))"
    using passage_parity [OF i] by blast
  assume ne: "work st \<noteq> []"
  note pf = pop_facts [OF invD(3) [OF i] ne, of rnd]
  note pc = passage_carved [OF invD(1) [OF i] invD(3) [OF i] ne, of rnd]
  have "loop_body rnd st = Inr (next_state rnd st)" using i ne by (rule loop_body_inv)
  moreover have "choice rnd (draws st) (work st) = Inr (popped rnd st)"
    using ne by (simp add: choice_def popped_def)
  moreover have "even (fst (popped rnd st)) \<and> even (snd (popped rnd st))"
    using pf(1) by (simp add: node_def)
  moreover note mid_one_odd [OF pf(4) pf(1)]
  moreover have "\<forall>d. passage (mz (next_state rnd st)) d =
      (d = popped rnd st \<or> d = mid (popped rnd st) (chosen rnd st) \<or> passage (mz st) d)"
    by (simp add: next_state_def pc)
  ultimately show "\<exists>st' c n. loop_body rnd st = Inr st' \<and>
            choice rnd (draws st) (work st) = Inr c \<and>
            even (fst c) \<and> even (snd c) \<and>
            odd (fst (mid c n)) \<noteq> odd (snd (mid c n)) \<and>
            (\<forall>d. passage (mz st') d = (d = c \<or> d = mid c n \<or> passage (mz st) d))"
    by blast
next
  assume "Maze_Generator rnd w h = Some (Inr st)"
  then have "loop_head rnd w h st" using Maze_Generator_Some by blast
  then have i: "loop_inv st" using loop_head_inv by blast
  show "passage (mz st) (0, 0)" by (rule invD(2) [OF i])
  show "\<forall>c. odd (fst c) \<and> odd (snd c) \<longrightarrow> \<not> passage (mz st) c"
    using passage_parity [OF i] by blast
qed

theorem parity_invariant_witness:
  "loop_head zero_draws 3 3 (first_state 3 3) \<and> work (first_state 3 3) \<noteq> [] \<and>
   Maze_Generator zero_draws 3 3 = Some (Inr three_by_three) \<and>
   \<not> passage (mz three_by_three) (1, 1) \<and>
   (\<exists>st' c n. loop_body zero_draws (first_state 3 3) = Inr st' \<and>
      choice zero_draws (draws (first_state 3 3)) (work (first_state 3 3)) = Inr c \<and>
      even (fst c) \<and> even (snd c) \<and>
      odd (fst (mid c n)) \<noteq> odd (snd (mid c n)))"
proof -
  have 1: "loop_head zero_draws 3 3 (first_state 3 3)" by (simp add: loop_head_first)
  have 2: "work (first_state 3 3) \<noteq> []" by code_simp
  have 3: "Maze_Generator zero_draws 3 3 = Some (Inr three_by_three)" by code_simp
  note final = parity_invariant [of zero_draws 3 3 three_by_three, THEN conjunct2, THEN mp, OF 3]
  from final have "odd (fst (1::int, 1::int)) \<and> odd (snd (1::int, 1::int)) \<longrightarrow>
      \<not> passage (mz three_by_three) (1, 1)"
    by (elim conjE allE [of _ "(1, 1)"])
  then have 4: "\<not> passage (mz three_by_three) (1, 1)" by simp
  note head = parity_invariant [of zero_draws 3 3 "first_state 3 3", THEN conjunct1, THEN mp, OF 1]
  note step = head [THEN conjunct2, THEN conjunct2, THEN mp, OF 2]
  from step obtain st' c n where s: "loop_body zero_draws (first_state 3 3) = Inr st'"
    "choice zero_draws (draws (first_state 3 3)) (work (first_state 3 3)) = Inr c"
    "even (fst c) \<and> even (snd c)" "odd (fst (mid c n)) \<noteq> odd (snd (mid c n))"
    by (elim exE conjE) simp
  then have 5: "\<exists>st' c n. loop_body zero_draws (first_state 3 3) = Inr st' \<and>
      choice zero_draws (draws (first_state 3 3)) (work (first_state 3 3)) = Inr c \<and>
      even (fst c) \<and> even (snd c) \<and>
      odd (fst (mid c n)) \<noteq> odd (snd (mid c n))"
    by (intro exI [of _ st'] exI [of _ c] exI [of _ n] conjI) simp_all
  show ?thesis by (intro conjI 1 2 3 4 5)
qed

end
